theory Spec2Isabelle
  imports Main "HOL-Library.Word"
begin

unbundle bit_operations_syntax

section \<open>hex\_tool: the checksum\<close>

text \<open>
  \<^verbatim>\<open>constexpr uint32_t POLYNOMIAL = 0xEDB88320u;\<close>
\<close>

definition POLYNOMIAL :: "32 word" where
  "POLYNOMIAL = 0xEDB88320"

text \<open>
  The inner loop of \<^verbatim>\<open>crc32\<close>, \<^verbatim>\<open>for (int j = 0; j < 8; j++)\<close>, started at \<open>j\<close>.
\<close>

function crc_bit_loop :: "nat \<Rightarrow> 32 word \<Rightarrow> 32 word" where
  "crc_bit_loop j crc =
     (if j < 8
      then crc_bit_loop (j + 1)
             (if crc AND 1 \<noteq> 0 then drop_bit 1 crc XOR POLYNOMIAL else drop_bit 1 crc)
      else crc)"
  by pat_completeness auto
termination
  by (relation "measure (\<lambda>(j, crc). 8 - j)") auto

declare crc_bit_loop.simps [simp del]

text \<open>
  The outer loop, \<^verbatim>\<open>for (uint8_t byte : data)\<close>, with the register threaded through.
\<close>

fun crc_byte_loop :: "8 word list \<Rightarrow> 32 word \<Rightarrow> 32 word" where
  "crc_byte_loop [] crc = crc"
| "crc_byte_loop (byte # data) crc = crc_byte_loop data (crc_bit_loop 0 (crc XOR ucast byte))"

definition crc32 :: "8 word list \<Rightarrow> 32 word" where
  "crc32 data = crc_byte_loop data 0xFFFFFFFF XOR 0xFFFFFFFF"

subsection \<open>CRC-32/ISO-HDLC as the specification words it\<close>

text \<open>
  The reference algorithm, written from the specification's description and not from the
  code: one step shifts the register right and XORs the polynomial in when the low bit was
  set; a byte is XORed into the low eight bits and followed by eight steps; the register
  starts at \<open>0xFFFFFFFF\<close> and is XORed with \<open>0xFFFFFFFF\<close> at the end.
\<close>

definition hdlc_step :: "32 word \<Rightarrow> 32 word" where
  "hdlc_step r = (if bit r 0 then drop_bit 1 r XOR 0xEDB88320 else drop_bit 1 r)"

definition hdlc_byte :: "32 word \<Rightarrow> 8 word \<Rightarrow> 32 word" where
  "hdlc_byte r b = (hdlc_step ^^ 8) (r XOR ucast b)"

definition crc32_iso_hdlc :: "8 word list \<Rightarrow> 32 word" where
  "crc32_iso_hdlc bs = foldl hdlc_byte 0xFFFFFFFF bs XOR 0xFFFFFFFF"

text \<open>The bytes of a string, as \<^verbatim>\<open>uint8_t\<close>.\<close>

definition ascii_bytes :: "string \<Rightarrow> 8 word list" where
  "ascii_bytes s = map of_char s"

section \<open>hex\_tool: reading one hex field\<close>

text \<open>
  The two exceptions that \<^verbatim>\<open>std::string::substr\<close> and \<^verbatim>\<open>std::stoi\<close> throw; both
  derive from \<^verbatim>\<open>std::exception\<close>, which is what the loop in \<^verbatim>\<open>main\<close> catches.
\<close>

datatype exception = Invalid_Argument | Out_Of_Range

text \<open>
  \<^verbatim>\<open>line.substr(pos, n)\<close>: throws \<^verbatim>\<open>std::out_of_range\<close> when \<open>pos\<close> is beyond the
  end of the string, and otherwise returns at most \<open>n\<close> characters from \<open>pos\<close> on
  (fewer when the string ends first, none when \<open>pos\<close> is the length).
\<close>

definition substr :: "string \<Rightarrow> nat \<Rightarrow> nat \<Rightarrow> exception + string" where
  "substr s pos n = (if length s < pos then Inl Out_Of_Range else Inr (take n (drop pos s)))"

text \<open>
  \<^verbatim>\<open>std::stoi(str, nullptr, 16)\<close> is \<^verbatim>\<open>strtol\<close> in base 16: leading white space is
  skipped, one sign is accepted, then an optional \<^verbatim>\<open>0x\<close> that is followed by a hex
  digit, then the longest run of hex digits. What follows the digits is ignored. With no
  digit at all nothing is converted and \<^verbatim>\<open>std::invalid_argument\<close> is thrown; a value
  that does not fit \<^verbatim>\<open>int\<close> throws \<^verbatim>\<open>std::out_of_range\<close>.
\<close>

definition isspace :: "char \<Rightarrow> bool" where
  "isspace c = (let n = (of_char c :: int) in n = 32 \<or> (9 \<le> n \<and> n \<le> 13))"

definition digit_value :: "char \<Rightarrow> int option" where
  "digit_value c =
     (let n = (of_char c :: int) in
      if 48 \<le> n \<and> n \<le> 57 then Some (n - 48)
      else if 97 \<le> n \<and> n \<le> 102 then Some (n - 87)
      else if 65 \<le> n \<and> n \<le> 70 then Some (n - 55)
      else None)"

text \<open>
  The digit loop of \<^verbatim>\<open>strtol\<close>: it stops at the first character that is not a hex
  digit and returns the value accumulated so far.
\<close>

fun accumulate_digits :: "int \<Rightarrow> string \<Rightarrow> int" where
  "accumulate_digits acc [] = acc"
| "accumulate_digits acc (c # cs) =
     (case digit_value c of
        None \<Rightarrow> acc
      | Some d \<Rightarrow> accumulate_digits (16 * acc + d) cs)"

definition strip_sign :: "string \<Rightarrow> bool \<times> string" where
  "strip_sign s =
     (case s of
        [] \<Rightarrow> (False, [])
      | c # cs \<Rightarrow> if c = CHR ''-'' then (True, cs)
                  else if c = CHR ''+'' then (False, cs)
                  else (False, s))"

definition strip_0x :: "string \<Rightarrow> string" where
  "strip_0x s =
     (case s of
        z # x # d # rest \<Rightarrow>
          if z = CHR ''0'' \<and> (x = CHR ''x'' \<or> x = CHR ''X'') \<and> digit_value d \<noteq> None
          then d # rest else s
      | _ \<Rightarrow> s)"

text \<open>\<open>None\<close> when no digit follows the optional white space, sign and prefix.\<close>

definition strtol16 :: "string \<Rightarrow> int option" where
  "strtol16 s =
     (let (negative, s1) = strip_sign (dropWhile isspace s);
          digits = strip_0x s1
      in case digits of
           [] \<Rightarrow> None
         | c # cs \<Rightarrow>
             if digit_value c = None then None
             else (let v = accumulate_digits 0 digits in Some (if negative then - v else v)))"

definition stoi16 :: "string \<Rightarrow> exception + int" where
  "stoi16 s =
     (case strtol16 s of
        None \<Rightarrow> Inl Invalid_Argument
      | Some v \<Rightarrow> if v < - (2 ^ 31) \<or> 2 ^ 31 - 1 < v then Inl Out_Of_Range else Inr v)"

text \<open>\<^verbatim>\<open>std::stoi(line.substr(pos, n), nullptr, 16)\<close>\<close>

definition hex_field :: "string \<Rightarrow> nat \<Rightarrow> nat \<Rightarrow> exception + int" where
  "hex_field line pos n =
     (case substr line pos n of Inl e \<Rightarrow> Inl e | Inr s \<Rightarrow> stoi16 s)"

section \<open>hex\_tool: assembling the memory map\<close>

text \<open>
  \<^verbatim>\<open>std::map<uint32_t, uint8_t>\<close> is a list of entries with ascending, unique keys;
  \<open>map_assign\<close> is \<^verbatim>\<open>memoryMap[k] = v\<close> and the list's order is the order in which the
  range-based \<^verbatim>\<open>for\<close> visits the entries.
\<close>

type_synonym memory_map = "(32 word \<times> 8 word) list"

fun map_assign :: "32 word \<Rightarrow> 8 word \<Rightarrow> memory_map \<Rightarrow> memory_map" where
  "map_assign k v [] = [(k, v)]"
| "map_assign k v ((k', v') # m) =
     (if k < k' then (k, v) # (k', v') # m
      else if k = k' then (k, v) # m
      else (k', v') # map_assign k v m)"

text \<open>
  The variables of \<^verbatim>\<open>main\<close> that the line loop changes, and the warnings it has written
  to the error stream (the line and the exception caught).
\<close>

record parse_state =
  memoryMap :: memory_map
  extendedLinearAddress :: "32 word"
  warnings :: "(string \<times> exception) list"

definition initial_state :: parse_state where
  "initial_state = \<lparr>memoryMap = [], extendedLinearAddress = 0, warnings = []\<rparr>"

text \<open>
  \<^verbatim>\<open>uint8_t byteValue = std::stoi(line.substr(9 + i * 2, 2), nullptr, 16);\<close>
  The \<^verbatim>\<open>int\<close> is narrowed to eight bits.
\<close>

definition payload_byte :: "string \<Rightarrow> nat \<Rightarrow> exception + 8 word" where
  "payload_byte line i =
     (case hex_field line (9 + i * 2) 2 of Inl e \<Rightarrow> Inl e | Inr v \<Rightarrow> Inr (word_of_int v))"

text \<open>
  The byte loop of a Data record, \<^verbatim>\<open>for (uint8_t i = 0; i < byteCount; ++i)\<close>, started at
  \<open>i\<close>. The counter stays below \<open>byteCount \<le> 255\<close>, so the \<^verbatim>\<open>uint8_t\<close> never wraps and
  is a \<open>nat\<close> here. An exception leaves the loop; the entries stored before it stay in the
  map, which is why the map is returned in both cases.
\<close>

function data_loop ::
  "32 word \<Rightarrow> 32 word \<Rightarrow> string \<Rightarrow> 32 word \<Rightarrow> nat \<Rightarrow> nat \<Rightarrow> memory_map
     \<Rightarrow> exception option \<times> memory_map" where
  "data_loop startAddress endAddress line currentAddress byteCount i m =
     (if i < byteCount then
        (let byteAddress = currentAddress + of_nat i in
         if startAddress \<le> byteAddress \<and> byteAddress < endAddress then
           (case payload_byte line i of
              Inl e \<Rightarrow> (Some e, m)
            | Inr byteValue \<Rightarrow>
                data_loop startAddress endAddress line currentAddress byteCount (i + 1)
                  (map_assign byteAddress byteValue m))
         else data_loop startAddress endAddress line currentAddress byteCount (i + 1) m)
      else (None, m))"
  by pat_completeness auto
termination
  by (relation "measure (\<lambda>(s, e, l, c, byteCount, i, m). byteCount - i)") auto

declare data_loop.simps [simp del]

text \<open>
  The three fields every record line starts with, narrowed as the declarations
  \<^verbatim>\<open>uint8_t byteCount\<close>, \<^verbatim>\<open>uint16_t addressOffset\<close> and \<^verbatim>\<open>uint8_t recordType\<close> do.
\<close>

definition parse_header :: "string \<Rightarrow> exception + (8 word \<times> 16 word \<times> 8 word)" where
  "parse_header line =
     (case hex_field line 1 2 of Inl e \<Rightarrow> Inl e | Inr bc \<Rightarrow>
      case hex_field line 3 4 of Inl e \<Rightarrow> Inl e | Inr off \<Rightarrow>
      case hex_field line 7 2 of Inl e \<Rightarrow> Inl e | Inr rt \<Rightarrow>
        Inr (word_of_int bc, word_of_int off, word_of_int rt))"

text \<open>
  The body of the \<^verbatim>\<open>try\<close> block: the exception thrown if any, the state as the body
  left it, and whether the body reached \<^verbatim>\<open>break\<close>. In
  \<^verbatim>\<open>extendedLinearAddress = upperAddress << 16\<close> the \<^verbatim>\<open>uint16_t\<close> is promoted, shifted
  and stored in 32 bits.
\<close>

definition try_body ::
  "32 word \<Rightarrow> 32 word \<Rightarrow> string \<Rightarrow> parse_state \<Rightarrow> exception option \<times> parse_state \<times> bool" where
  "try_body startAddress endAddress line st =
     (case parse_header line of
        Inl e \<Rightarrow> (Some e, st, False)
      | Inr (byteCount, addressOffset, recordType) \<Rightarrow>
          if recordType = 0x04 then
            (case hex_field line 9 4 of
               Inl e \<Rightarrow> (Some e, st, False)
             | Inr v \<Rightarrow>
                 (let upperAddress = (word_of_int v :: 16 word) in
                  (None, st\<lparr>extendedLinearAddress := push_bit 16 (ucast upperAddress)\<rparr>, False)))
          else if recordType = 0x00 then
            (let currentAddress = extendedLinearAddress st + ucast addressOffset;
                 (thrown, m) = data_loop startAddress endAddress line currentAddress
                                 (unat byteCount) 0 (memoryMap st)
             in (thrown, st\<lparr>memoryMap := m\<rparr>, False))
          else if recordType = 0x01 then (None, st, True)
          else (None, st, False))"

text \<open>
  One turn of \<^verbatim>\<open>while (std::getline(hexFile, line))\<close>: the new state and whether the
  loop is left. A line that is empty or does not start with a colon is skipped; an
  exception is caught, reported with the line, and the loop goes on.
\<close>

definition process_line ::
  "32 word \<Rightarrow> 32 word \<Rightarrow> string \<Rightarrow> parse_state \<Rightarrow> parse_state \<times> bool" where
  "process_line startAddress endAddress line st =
     (if line = [] \<or> hd line \<noteq> CHR '':'' then (st, False)
      else
        (case try_body startAddress endAddress line st of
           (Some e, st', _) \<Rightarrow> (st'\<lparr>warnings := warnings st' @ [(line, e)]\<rparr>, False)
         | (None, st', stop) \<Rightarrow> (st', stop)))"

fun read_lines :: "32 word \<Rightarrow> 32 word \<Rightarrow> string list \<Rightarrow> parse_state \<Rightarrow> parse_state" where
  "read_lines startAddress endAddress [] st = st"
| "read_lines startAddress endAddress (line # rest) st =
     (case process_line startAddress endAddress line st of
        (st', True) \<Rightarrow> st'
      | (st', False) \<Rightarrow> read_lines startAddress endAddress rest st')"

section \<open>hex\_tool: the output buffer and the run\<close>

text \<open>
  The loop over the map that fills \<^verbatim>\<open>binaryData\<close> and sets \<^verbatim>\<open>dataFoundInRange\<close>.
  \<^verbatim>\<open>binaryData[address - startAddress]\<close> is not bounds-checked in the source: a write past
  the end is undefined behaviour, which is the result \<open>None\<close> here.
\<close>

fun populate ::
  "32 word \<Rightarrow> 32 word \<Rightarrow> memory_map \<Rightarrow> 8 word list \<times> bool \<Rightarrow> (8 word list \<times> bool) option" where
  "populate startAddress endAddress [] acc = Some acc"
| "populate startAddress endAddress ((address, v) # m) (binaryData, dataFoundInRange) =
     (if startAddress \<le> address \<and> address < endAddress then
        (if unat (address - startAddress) < length binaryData
         then populate startAddress endAddress m
                (binaryData[unat (address - startAddress) := v], True)
         else None)
      else populate startAddress endAddress m (binaryData, dataFoundInRange))"

text \<open>
  Step 3 of \<^verbatim>\<open>main\<close>: \<^verbatim>\<open>std::vector<uint8_t> binaryData(bankSize, 0xFF)\<close> and the loop.
\<close>

definition construct_binary ::
  "32 word \<Rightarrow> 32 word \<Rightarrow> memory_map \<Rightarrow> (8 word list \<times> bool) option" where
  "construct_binary startAddress bankSize m =
     populate startAddress (startAddress + bankSize) m (replicate (unat bankSize) 0xFF, False)"

text \<open>
  What a run leaves behind: the value \<^verbatim>\<open>main\<close> returns, the fatal error it reported,
  the warnings of the line loop, whether the line loop was run to its end (the message
  \<^verbatim>\<open>Successfully parsed HEX file.\<close>), the bytes written to the output file and the hash
  printed.
\<close>

datatype fatal_error = Could_Not_Open_Input | No_Data_Found | Could_Not_Create_Output

record run_result =
  exit_status :: int
  fatal :: "fatal_error option"
  line_warnings :: "(string \<times> exception) list"
  parsed_message :: bool
  bin_file :: "8 word list option"
  generated_hash :: "32 word option"

text \<open>
  \<^verbatim>\<open>main\<close> after its arguments are converted: \<open>hexFile\<close> is the lines of the input file,
  or \<open>None\<close> when it cannot be opened; \<open>binFileOpens\<close> says whether the output file can be
  created; \<open>startAddress\<close> and \<open>bankSize\<close> are the two \<^verbatim>\<open>uint32_t\<close> values. The sum
  \<^verbatim>\<open>startAddress + bankSize\<close> is a \<^verbatim>\<open>uint32_t\<close> addition. The result is \<open>None\<close> when the
  run has undefined behaviour.
\<close>

definition hex_tool ::
  "string list option \<Rightarrow> bool \<Rightarrow> 32 word \<Rightarrow> 32 word \<Rightarrow> run_result option" where
  "hex_tool hexFile binFileOpens startAddress bankSize =
     (let endAddress = startAddress + bankSize in
      case hexFile of
        None \<Rightarrow>
          Some \<lparr>exit_status = 1, fatal = Some Could_Not_Open_Input, line_warnings = [],
                parsed_message = False, bin_file = None, generated_hash = None\<rparr>
      | Some lines \<Rightarrow>
          (let st = read_lines startAddress endAddress lines initial_state in
           case construct_binary startAddress bankSize (memoryMap st) of
             None \<Rightarrow> None
           | Some (binaryData, dataFoundInRange) \<Rightarrow>
               if \<not> dataFoundInRange then
                 Some \<lparr>exit_status = 1, fatal = Some No_Data_Found,
                       line_warnings = warnings st, parsed_message = True,
                       bin_file = None, generated_hash = None\<rparr>
               else if \<not> binFileOpens then
                 Some \<lparr>exit_status = 1, fatal = Some Could_Not_Create_Output,
                       line_warnings = warnings st, parsed_message = True,
                       bin_file = None, generated_hash = None\<rparr>
               else
                 Some \<lparr>exit_status = 0, fatal = None,
                       line_warnings = warnings st, parsed_message = True,
                       bin_file = Some binaryData, generated_hash = Some (crc32 binaryData)\<rparr>))"

section \<open>Notions used to state the properties\<close>

abbreviation in_window :: "32 word \<Rightarrow> 32 word \<Rightarrow> 32 word \<Rightarrow> bool" where
  "in_window s e a \<equiv> s \<le> a \<and> a < e"

text \<open>The invariant of \<^verbatim>\<open>std::map\<close>: keys strictly ascending, hence unique.\<close>

definition keys_ascending :: "memory_map \<Rightarrow> bool" where
  "keys_ascending m = sorted_wrt (<) (map fst m)"

text \<open>A line the loop does not skip: not empty, first character a colon.\<close>

definition candidate :: "string \<Rightarrow> bool" where
  "candidate line = (line \<noteq> [] \<and> hd line = CHR '':'')"

text \<open>A line the loop takes for a Terminator record: its header reads, with type 1.\<close>

definition is_terminator :: "string \<Rightarrow> bool" where
  "is_terminator line =
     (candidate line \<and>
      (case parse_header line of Inl e \<Rightarrow> False | Inr (bc, off, rt) \<Rightarrow> rt = 0x01))"

text \<open>The invariant of the line loop: the map is ordered and holds in-window addresses only.\<close>

definition map_invariant :: "32 word \<Rightarrow> 32 word \<Rightarrow> memory_map \<Rightarrow> bool" where
  "map_invariant s e m = (keys_ascending m \<and> (\<forall>a\<in>fst ` set m. in_window s e a))"

text \<open>The buffer a run writes to the output file when that file can be created.\<close>

definition output_buffer :: "string list \<Rightarrow> 32 word \<Rightarrow> 32 word \<Rightarrow> 8 word list option" where
  "output_buffer ls startAddress bankSize =
     (case hex_tool (Some ls) True startAddress bankSize of
        None \<Rightarrow> None
      | Some r \<Rightarrow> bin_file r)"



text \<open>The \<open>n\<close> characters of the line from position \<open>pos\<close> on exist and are hex digits.\<close>

definition hex_digits_at :: "string \<Rightarrow> nat \<Rightarrow> nat \<Rightarrow> bool" where
  "hex_digits_at line pos n =
     (pos + n \<le> length line \<and> list_all (\<lambda>c. digit_value c \<noteq> None) (take n (drop pos line)))"

text \<open>A line the loop takes for an Extended-High-Address record: its header reads, with type 4.\<close>

definition is_extended_address :: "string \<Rightarrow> bool" where
  "is_extended_address line =
     (candidate line \<and>
      (case parse_header line of Inl e \<Rightarrow> False | Inr (bc, off, rt) \<Rightarrow> rt = 0x04))"

text \<open>
  The requested window in exact integers: \<open>a\<close> is one of the \<open>bankSize\<close> addresses from
  \<open>startAddress\<close> on, with no wrap-around of the end.
\<close>

definition in_requested_window :: "32 word \<Rightarrow> 32 word \<Rightarrow> 32 word \<Rightarrow> bool" where
  "in_requested_window startAddress bankSize a =
     (uint startAddress \<le> uint a \<and> uint a < uint startAddress + uint bankSize)"

text \<open>
  A Data record line that, read from the base \<open>base\<close> on, holds a byte for the requested
  window: its header reads with type 0, and one of its \<open>byteCount\<close> payload bytes lies at
  an address of the window and reads as hex, as does every earlier byte of the record
  that lies in the window.
\<close>

definition stores_in_window :: "32 word \<Rightarrow> 32 word \<Rightarrow> string \<Rightarrow> 32 word \<Rightarrow> bool" where
  "stores_in_window startAddress bankSize line base =
     (candidate line \<and>
      (case parse_header line of
         Inl e \<Rightarrow> False
       | Inr (bc, off, rt) \<Rightarrow>
           rt = 0x00 \<and>
           list_ex
             (\<lambda>k. in_requested_window startAddress bankSize (base + ucast off + of_nat k)
                  \<and> \<not> isl (payload_byte line k)
                  \<and> list_all
                      (\<lambda>j. in_requested_window startAddress bankSize (base + ucast off + of_nat j)
                             \<longrightarrow> \<not> isl (payload_byte line j))
                      [0..<k])
             [0..<unat bc]))"

section \<open>The checksum is CRC-32/ISO-HDLC\<close>

lemma low_bit_test: "(crc AND 1 \<noteq> 0) = bit (crc :: 32 word) 0"
  by (simp add: and_one_eq mod2_eq_if bit_0)

lemma crc_bit_loop_step:
  "crc_bit_loop j crc = (if j < 8 then crc_bit_loop (j + 1) (hdlc_step crc) else crc)"
  by (subst crc_bit_loop.simps) (simp add: hdlc_step_def POLYNOMIAL_def low_bit_test)

lemma crc_bit_loop_eight: "crc_bit_loop 0 crc = (hdlc_step ^^ 8) crc"
  by (simp add: crc_bit_loop_step eval_nat_numeral)

lemma crc_byte_loop_foldl: "crc_byte_loop data crc = foldl hdlc_byte crc data"
  by (induction data arbitrary: crc) (simp_all add: crc_bit_loop_eight hdlc_byte_def)

lemma crc32_refines: "crc32 data = crc32_iso_hdlc data"
  by (simp add: crc32_def crc32_iso_hdlc_def crc_byte_loop_foldl)

lemma crc32_empty: "crc32 [] = 0x00000000"
  by (simp add: crc32_def)

lemma crc32_check_value: "crc32 (ascii_bytes ''123456789'') = 0xCBF43926"
  by code_simp

text \<open>
  C2. On every byte sequence \<open>crc32\<close> computes CRC-32/ISO-HDLC as the specification
  describes it (register \<open>0xFFFFFFFF\<close>, each byte XORed into the low eight bits and
  followed by eight shift-and-conditionally-XOR steps with \<open>0xEDB88320\<close>, final XOR with
  \<open>0xFFFFFFFF\<close>); the empty sequence gives \<open>0x00000000\<close> and the ASCII bytes of
  \<open>123456789\<close> give \<open>0xCBF43926\<close>.
\<close>

theorem crc32_is_crc32_iso_hdlc:
  "crc32 data = crc32_iso_hdlc data
   \<and> crc32 [] = 0x00000000
   \<and> crc32 (ascii_bytes ''123456789'') = 0xCBF43926"
  using crc32_refines crc32_empty crc32_check_value by simp

section \<open>The memory map\<close>

lemma map_of_map_assign: "map_of (map_assign k v m) = (map_of m)(k \<mapsto> v)"
  by (induction m) (auto simp: fun_upd_twist)

lemma set_map_assign: "fst ` set (map_assign k v m) = insert k (fst ` set m)"
proof -
  have "fst ` set (map_assign k v m) = dom (map_of (map_assign k v m))"
    by (simp add: dom_map_of_conv_image_fst)
  also have "\<dots> = insert k (dom (map_of m))"
    by (simp add: map_of_map_assign)
  finally show ?thesis by (simp add: dom_map_of_conv_image_fst)
qed

lemma keys_ascending_map_assign:
  "keys_ascending m \<Longrightarrow> keys_ascending (map_assign k v m)"
proof (induction m)
  case Nil
  then show ?case by (simp add: keys_ascending_def)
next
  case (Cons p m)
  obtain k' v' where p: "p = (k', v')" by (cases p)
  from Cons.prems have tl: "keys_ascending m" and hd: "\<forall>x\<in>fst ` set m. k' < x"
    by (auto simp: keys_ascending_def p)
  show ?case
  proof (cases "k < k'")
    case True
    with Cons.prems show ?thesis by (auto simp: keys_ascending_def p)
  next
    case False
    show ?thesis
    proof (cases "k = k'")
      case True
      with Cons.prems show ?thesis by (auto simp: keys_ascending_def p)
    next
      case ne: False
      with False have lt: "k' < k" by simp
      have "keys_ascending (map_assign k v m)" using Cons.IH tl by simp
      moreover have "\<forall>x\<in>fst ` set (map_assign k v m). k' < x"
        using hd lt by (simp add: set_map_assign)
      ultimately show ?thesis using False ne
        by (simp add: keys_ascending_def p) 
    qed
  qed
qed

section \<open>The output buffer\<close>

lemma window_index:
  fixes s a n :: "32 word"
  assumes "s \<le> a" "a < s + n"
  shows "unat (a - s) < unat n"
  using assms by unat_arith

lemma window_index_inj:
  fixes s :: "32 word"
  assumes "i < unat (n :: 32 word)" 
  shows "unat ((s + of_nat i) - s) = i"
proof -
  have "i < 2 ^ 32" using assms unsigned_less [of n, where ?'a = nat] by simp
  then show ?thesis by (simp add: unat_of_nat)
qed


lemma window_offset:
  fixes s a :: "32 word"
  shows "s + of_nat (unat (a - s)) = a"
  by simp

lemma populate_length:
  "populate s e m (buf, f) = Some (buf', f') \<Longrightarrow> length buf' = length buf"
  by (induction m arbitrary: buf f) (auto split: if_splits)

lemma populate_found:
  "populate s e m (buf, f) = Some (buf', f') \<Longrightarrow>
     f' = (f \<or> (\<exists>a\<in>fst ` set m. in_window s e a))"
proof (induction m arbitrary: buf f)
  case Nil
  then show ?case by simp
next
  case (Cons p m)
  obtain a v where p: "p = (a, v)" by (cases p)
  show ?case
  proof (cases "in_window s e a")
    case True
    with Cons.prems have "populate s e m (buf[unat (a - s) := v], True) = Some (buf', f')"
      by (simp add: p split: if_splits)
    from Cons.IH [OF this] True show ?thesis by (auto simp: p)
  next
    case False
    with Cons.prems have "populate s e m (buf, f) = Some (buf', f')"
      by (auto simp add: p)
    from Cons.IH [OF this] False show ?thesis by (auto simp: p)
  qed
qed

lemma populate_defined:
  fixes s n :: "32 word"
  assumes "length buf = unat n"
  shows "\<exists>buf' f'. populate s (s + n) m (buf, f) = Some (buf', f')"
  using assms
proof (induction m arbitrary: buf f)
  case Nil
  then show ?case by simp
next
  case (Cons p m)
  obtain a v where p: "p = (a, v)" by (cases p)
  show ?case
  proof (cases "in_window s (s + n) a")
    case True
    then have "unat (a - s) < length buf"
      using window_index [of s a n] Cons.prems by simp
    moreover have "length (buf[unat (a - s) := v]) = unat n"
      using Cons.prems by simp
    ultimately show ?thesis
      using True Cons.IH [of "buf[unat (a - s) := v]" True] by (simp add: p)
  next
    case False
    then show ?thesis using Cons.IH [OF Cons.prems, of f] by (auto simp add: p)
  qed
qed

lemma populate_nth:
  fixes s n :: "32 word"
  assumes "populate s (s + n) m (buf, f) = Some (buf', f')"
    and "distinct (map fst m)"
    and "length buf = unat n"
    and "i < unat n"
  shows "buf' ! i =
     (case map_of m (s + of_nat i) of
        Some v \<Rightarrow> if in_window s (s + n) (s + of_nat i) then v else buf ! i
      | None \<Rightarrow> buf ! i)"
  using assms
proof (induction m arbitrary: buf f)
  case Nil
  then show ?case by simp
next
  case (Cons p m)
  obtain a v where p: "p = (a, v)" by (cases p)
  from Cons.prems(2) have dist: "distinct (map fst m)" and fresh: "map_of m a = None"
    by (auto simp: p map_of_eq_None_iff)
  show ?case
  proof (cases "in_window s (s + n) a")
    case True
    then have idx: "unat (a - s) < length buf"
      using window_index [of s a n] Cons.prems(3) by simp
    have step: "populate s (s + n) m (buf[unat (a - s) := v], True) = Some (buf', f')"
      using Cons.prems(1) True idx by (simp add: p)
    have len: "length (buf[unat (a - s) := v]) = unat n"
      using Cons.prems(3) by simp
    note ih = Cons.IH [OF step dist len Cons.prems(4)]
    show ?thesis
    proof (cases "s + of_nat i = a")
      case eq: True
      then have "unat (a - s) = i"
        using window_index_inj [OF Cons.prems(4), of s] by simp
      then show ?thesis using ih eq fresh True idx by (simp add: p)
    next
      case ne: False
      then have "unat (a - s) \<noteq> i"
        using window_offset [of s a] by auto
      then show ?thesis using ih ne by (auto simp add: p split: option.splits)
    qed
  next
    case False
    then have step: "populate s (s + n) m (buf, f) = Some (buf', f')"
      using Cons.prems(1) by (auto simp add: p)
    note ih = Cons.IH [OF step dist Cons.prems(3) Cons.prems(4)]
    show ?thesis
    proof (cases "s + of_nat i = a")
      case True
      then show ?thesis using ih fresh False by (auto simp add: p)
    next
      case ne: False
      then show ?thesis using ih by (simp add: p)
    qed
  qed
qed

section \<open>The byte loop of a Data record\<close>

lemma of_nat_neq_32:
  assumes "j < 2 ^ 32" "k < 2 ^ 32" "j \<noteq> k"
  shows "(of_nat j :: 32 word) \<noteq> of_nat k"
proof
  assume "(of_nat j :: 32 word) = of_nat k"
  then have "unat (of_nat j :: 32 word) = unat (of_nat k :: 32 word)" by simp
  with assms show False by (simp add: unat_of_nat)
qed

lemma data_loop_keys_ascending:
  "keys_ascending m \<Longrightarrow> keys_ascending (snd (data_loop s e l cur bc i m))"
proof (induction s e l cur bc i m rule: data_loop.induct)
  case (1 s e l cur bc i m)
  show ?case
    using "1.IH" "1.prems"
    by (subst data_loop.simps)
       (auto simp: Let_def keys_ascending_map_assign split: sum.splits)
qed

lemma data_loop_keys_in_window:
  "\<forall>a\<in>fst ` set m. in_window s e a \<Longrightarrow>
   \<forall>a\<in>fst ` set (snd (data_loop s e l cur bc i m)). in_window s e a"
proof (induction s e l cur bc i m rule: data_loop.induct)
  case (1 s e l cur bc i m)
  show ?case
  proof (cases "i < bc")
    case False
    then show ?thesis using "1.prems" by (subst data_loop.simps) simp
  next
    case lt: True
    show ?thesis
    proof (cases "in_window s e (cur + of_nat i)")
      case False
      then have "data_loop s e l cur bc i m = data_loop s e l cur bc (i + 1) m"
        by (subst data_loop.simps) (auto simp: lt)
      then show ?thesis using "1.IH"(2) [OF lt refl _ "1.prems"] False by auto
    next
      case win: True
      show ?thesis
      proof (cases "payload_byte l i")
        case (Inl ex)
        then have "data_loop s e l cur bc i m = (Some ex, m)"
          by (subst data_loop.simps) (simp add: lt win)
        then show ?thesis using "1.prems" by simp
      next
        case (Inr v)
        then have eq: "data_loop s e l cur bc i m =
            data_loop s e l cur bc (i + 1) (map_assign (cur + of_nat i) v m)"
          by (subst data_loop.simps) (simp add: lt win)
        have "\<forall>a\<in>fst ` set (map_assign (cur + of_nat i) v m). in_window s e a"
          using "1.prems" win by (simp add: set_map_assign)
        from "1.IH"(1) [OF lt refl _ Inr this] win show ?thesis by (simp add: eq)
      qed
    qed
  qed
qed

lemma data_loop_untouched:
  "\<forall>j. i \<le> j \<and> j < bc \<longrightarrow> cur + of_nat j \<noteq> a \<Longrightarrow>
   map_of (snd (data_loop s e l cur bc i m)) a = map_of m a"
proof (induction s e l cur bc i m rule: data_loop.induct)
  case (1 s e l cur bc i m)
  show ?case
  proof (cases "i < bc")
    case False
    then show ?thesis by (subst data_loop.simps) simp
  next
    case lt: True
    have later: "\<forall>j. i + 1 \<le> j \<and> j < bc \<longrightarrow> cur + of_nat j \<noteq> a"
      using "1.prems" by auto
    have here: "cur + of_nat i \<noteq> a" using "1.prems" lt by auto
    show ?thesis
    proof (cases "in_window s e (cur + of_nat i)")
      case False
      then have "data_loop s e l cur bc i m = data_loop s e l cur bc (i + 1) m"
        by (subst data_loop.simps) (auto simp: lt)
      then show ?thesis using "1.IH"(2) [OF lt refl _ later] False by auto
    next
      case win: True
      show ?thesis
      proof (cases "payload_byte l i")
        case (Inl ex)
        then have "data_loop s e l cur bc i m = (Some ex, m)"
          by (subst data_loop.simps) (simp add: lt win)
        then show ?thesis by simp
      next
        case (Inr v)
        then have eq: "data_loop s e l cur bc i m =
            data_loop s e l cur bc (i + 1) (map_assign (cur + of_nat i) v m)"
          by (subst data_loop.simps) (simp add: lt win)
        from "1.IH"(1) [OF lt refl _ Inr later] win here show ?thesis
          by (simp add: eq map_of_map_assign)
      qed
    qed
  qed
qed


lemma data_loop_throws_iff:
  "fst (data_loop s e l cur bc i m) \<noteq> None \<longleftrightarrow>
     (\<exists>j. i \<le> j \<and> j < bc \<and> in_window s e (cur + of_nat j) \<and> isl (payload_byte l j))"
proof (induction s e l cur bc i m rule: data_loop.induct)
  case (1 s e l cur bc i m)
  show ?case
  proof (cases "i < bc")
    case False
    then show ?thesis by (subst data_loop.simps) auto
  next
    case lt: True
    have split: "\<And>P. (\<exists>j. i \<le> j \<and> j < bc \<and> P j) \<longleftrightarrow> P i \<or> (\<exists>j. i + 1 \<le> j \<and> j < bc \<and> P j)"
      using lt by (metis Suc_eq_plus1 Suc_leI le_eq_less_or_eq order_refl Suc_le_lessD less_imp_le)
    show ?thesis
    proof (cases "in_window s e (cur + of_nat i)")
      case False
      then have "data_loop s e l cur bc i m = data_loop s e l cur bc (i + 1) m"
        by (subst data_loop.simps) (auto simp: lt)
      then show ?thesis using "1.IH"(2) [OF lt refl] False by (subst split) auto
    next
      case win: True
      show ?thesis
      proof (cases "payload_byte l i")
        case (Inl ex)
        then have "data_loop s e l cur bc i m = (Some ex, m)"
          by (subst data_loop.simps) (simp add: lt win)
        then show ?thesis using lt win Inl by (subst split) auto
      next
        case (Inr v)
        then have eq: "data_loop s e l cur bc i m =
            data_loop s e l cur bc (i + 1) (map_assign (cur + of_nat i) v m)"
          by (subst data_loop.simps) (simp add: lt win)
        from "1.IH"(1) [OF lt refl _ Inr] win Inr show ?thesis
          by (subst split) (simp add: eq)
      qed
    qed
  qed
qed

lemma data_loop_written:
  assumes "i \<le> k" "k < bc" "bc \<le> 256"
    and "in_window s e (cur + of_nat k)"
    and "\<forall>j. i \<le> j \<and> j < k \<and> in_window s e (cur + of_nat j) \<longrightarrow> \<not> isl (payload_byte l j)"
    and "payload_byte l k = Inr v"
  shows "map_of (snd (data_loop s e l cur bc i m)) (cur + of_nat k) = Some v"
  using assms
proof (induction s e l cur bc i m rule: data_loop.induct)
  case (1 s e l cur bc i m)
  note ik = "1.prems"(1) and kbc = "1.prems"(2) and bc = "1.prems"(3)
    and wink = "1.prems"(4) and before = "1.prems"(5) and atk = "1.prems"(6)
  have lt: "i < bc" using ik kbc by simp
  show ?case
  proof (cases "i = k")
    case True
    have eq: "data_loop s e l cur bc i m =
        data_loop s e l cur bc (i + 1) (map_assign (cur + of_nat k) v m)"
      using True wink atk lt by (subst data_loop.simps) simp
    have "\<forall>j. i + 1 \<le> j \<and> j < bc \<longrightarrow> cur + of_nat j \<noteq> cur + of_nat k"
    proof (intro allI impI)
      fix j assume j: "i + 1 \<le> j \<and> j < bc"
      then have "j < 2 ^ 32" "k < 2 ^ 32" "j \<noteq> k" using kbc bc True by auto
      from of_nat_neq_32 [OF this] show "cur + of_nat j \<noteq> cur + of_nat k" by simp
    qed
    from data_loop_untouched [OF this] show ?thesis
      by (simp add: eq map_of_map_assign)
  next
    case False
    then have ik': "i + 1 \<le> k" "i < k" using ik by auto
    have later: "\<forall>j. i + 1 \<le> j \<and> j < k \<and> in_window s e (cur + of_nat j)
        \<longrightarrow> \<not> isl (payload_byte l j)"
      using before by auto
    show ?thesis
    proof (cases "in_window s e (cur + of_nat i)")
      case False
      then have "data_loop s e l cur bc i m = data_loop s e l cur bc (i + 1) m"
        by (subst data_loop.simps) (auto simp: lt)
      then show ?thesis using "1.IH"(2) [OF lt refl _ ik'(1) kbc bc wink later atk] False by auto
    next
      case win: True
      then have "\<not> isl (payload_byte l i)" using before ik'(2) by auto
      then obtain b where b: "payload_byte l i = Inr b" by (cases "payload_byte l i") auto
      then have eq: "data_loop s e l cur bc i m =
          data_loop s e l cur bc (i + 1) (map_assign (cur + of_nat i) b m)"
        by (subst data_loop.simps) (simp add: lt win)
      from "1.IH"(1) [OF lt refl _ b ik'(1) kbc bc wink later atk] win show ?thesis by (simp add: eq)
    qed
  qed
qed

section \<open>One line, and the line loop\<close>

lemma process_line_skip:
  "\<not> candidate l \<Longrightarrow> process_line s e l st = (st, False)"
  by (auto simp: process_line_def candidate_def)

lemma process_line_header_fails:
  "candidate l \<Longrightarrow> parse_header l = Inl ex \<Longrightarrow>
   process_line s e l st = (st\<lparr>warnings := warnings st @ [(l, ex)]\<rparr>, False)"
  by (auto simp: process_line_def candidate_def try_body_def)

lemma process_line_terminator:
  "candidate l \<Longrightarrow> parse_header l = Inr (bc, off, 0x01) \<Longrightarrow>
   process_line s e l st = (st, True)"
  by (auto simp: process_line_def candidate_def try_body_def)

lemma process_line_extended:
  "candidate l \<Longrightarrow> parse_header l = Inr (bc, off, 0x04) \<Longrightarrow>
   process_line s e l st =
     (case hex_field l 9 4 of
        Inl ex \<Rightarrow> (st\<lparr>warnings := warnings st @ [(l, ex)]\<rparr>, False)
      | Inr v \<Rightarrow> (st\<lparr>extendedLinearAddress := push_bit 16 (ucast (word_of_int v :: 16 word))\<rparr>,
                  False))"
  by (auto simp: process_line_def candidate_def try_body_def Let_def split: sum.splits)

lemma process_line_data:
  "candidate l \<Longrightarrow> parse_header l = Inr (bc, off, 0x00) \<Longrightarrow>
   process_line s e l st =
     (case data_loop s e l (extendedLinearAddress st + ucast off) (unat bc) 0 (memoryMap st) of
        (None, m) \<Rightarrow> (st\<lparr>memoryMap := m\<rparr>, False)
      | (Some ex, m) \<Rightarrow> (st\<lparr>memoryMap := m, warnings := warnings st @ [(l, ex)]\<rparr>, False))"
  by (auto simp: process_line_def candidate_def try_body_def Let_def split: prod.splits option.splits)

lemma process_line_other:
  "candidate l \<Longrightarrow> parse_header l = Inr (bc, off, rt) \<Longrightarrow>
   rt \<noteq> 0x00 \<Longrightarrow> rt \<noteq> 0x01 \<Longrightarrow> rt \<noteq> 0x04 \<Longrightarrow>
   process_line s e l st = (st, False)"
  by (auto simp: process_line_def candidate_def try_body_def)

lemma process_line_cases [case_names skip header_fails terminator extended data other]:
  assumes "\<not> candidate l \<Longrightarrow> P"
    and "\<And>ex. candidate l \<Longrightarrow> parse_header l = Inl ex \<Longrightarrow> P"
    and "\<And>bc off. candidate l \<Longrightarrow> parse_header l = Inr (bc, off, 0x01) \<Longrightarrow> P"
    and "\<And>bc off. candidate l \<Longrightarrow> parse_header l = Inr (bc, off, 0x04) \<Longrightarrow> P"
    and "\<And>bc off. candidate l \<Longrightarrow> parse_header l = Inr (bc, off, 0x00) \<Longrightarrow> P"
    and "\<And>bc off rt. candidate l \<Longrightarrow> parse_header l = Inr (bc, off, rt) \<Longrightarrow>
           rt \<noteq> 0x00 \<Longrightarrow> rt \<noteq> 0x01 \<Longrightarrow> rt \<noteq> 0x04 \<Longrightarrow> P"
  shows P
proof (cases "candidate l")
  case False
  then show ?thesis by (rule assms(1))
next
  case True
  show ?thesis
  proof (cases "parse_header l")
    case (Inl ex)
    with True show ?thesis by (rule assms(2))
  next
    case (Inr h)
    obtain bc off rt where h: "h = (bc, off, rt)" by (cases h)
    show ?thesis using assms(3-6) [OF True] Inr h by blast
  qed
qed

lemma process_line_stops_iff:
  "snd (process_line s e l st) \<longleftrightarrow> is_terminator l"
proof (cases l rule: process_line_cases)
  case skip
  then show ?thesis by (simp add: process_line_skip is_terminator_def)
next
  case (header_fails ex)
  then show ?thesis by (simp add: process_line_header_fails is_terminator_def)
next
  case (terminator bc off)
  then show ?thesis by (simp add: process_line_terminator is_terminator_def)
next
  case (extended bc off)
  then show ?thesis by (simp add: process_line_extended is_terminator_def split: sum.splits)
next
  case (data bc off)
  then show ?thesis
    by (simp add: process_line_data is_terminator_def split: prod.splits option.splits)
next
  case (other bc off rt)
  then show ?thesis by (simp add: process_line_other is_terminator_def)
qed

lemma process_line_terminator_state:
  "is_terminator l \<Longrightarrow> process_line s e l st = (st, True)"
  by (auto simp: is_terminator_def process_line_terminator split: sum.splits)

lemma data_loop_invariant:
  assumes "map_invariant s e m"
  shows "map_invariant s e (snd (data_loop s e l cur bc i m))"
proof -
  from assms have asc: "keys_ascending m" and win: "\<forall>a\<in>fst ` set m. in_window s e a"
    by (simp_all add: map_invariant_def)
  show ?thesis
    unfolding map_invariant_def
    using data_loop_keys_ascending [OF asc] data_loop_keys_in_window [OF win] by simp
qed

lemma process_line_invariant:
  assumes "map_invariant s e (memoryMap st)"
  shows "map_invariant s e (memoryMap (fst (process_line s e l st)))"
proof (cases l rule: process_line_cases)
  case skip
  from process_line_skip [OF this, of s e st] assms show ?thesis by simp
next
  case (header_fails ex)
  from process_line_header_fails [OF this, of s e st] assms show ?thesis by simp
next
  case (terminator bc off)
  from process_line_terminator [OF this, of s e st] assms show ?thesis by simp
next
  case (extended bc off)
  from process_line_extended [OF this, of s e st] assms show ?thesis
    by (cases "hex_field l 9 4") simp_all
next
  case (data bc off)
  obtain thrown m where
    dl: "data_loop s e l (extendedLinearAddress st + ucast off) (unat bc) 0 (memoryMap st)
          = (thrown, m)"
    by (cases "data_loop s e l (extendedLinearAddress st + ucast off) (unat bc) 0 (memoryMap st)")
  have "map_invariant s e m"
    using data_loop_invariant [OF assms, of l "extendedLinearAddress st + ucast off" "unat bc" 0] dl
    by simp
  with process_line_data [OF data, of s e st] dl show ?thesis
    by (cases thrown) simp_all
next
  case (other bc off rt)
  from process_line_other [OF this, of s e st] assms show ?thesis by simp
qed

lemma read_lines_invariant:
  "map_invariant s e (memoryMap st) \<Longrightarrow> map_invariant s e (memoryMap (read_lines s e ls st))"
proof (induction ls arbitrary: st)
  case Nil
  then show ?case by simp
next
  case (Cons l ls)
  obtain st' stop where pl: "process_line s e l st = (st', stop)"
    by (cases "process_line s e l st")
  have inv: "map_invariant s e (memoryMap st')"
    using process_line_invariant [OF Cons.prems, of l] pl by simp
  show ?case using Cons.IH [OF inv] inv pl by (cases stop) simp_all
qed

lemma initial_invariant: "map_invariant s e (memoryMap initial_state)"
  by (simp add: map_invariant_def initial_state_def keys_ascending_def)

lemma keys_ascending_distinct: "keys_ascending m \<Longrightarrow> distinct (map fst m)"
  using strict_sorted_iff [of "map fst m"] by (simp add: keys_ascending_def)

lemma read_lines_append:
  "\<forall>l\<in>set pre. \<not> is_terminator l \<Longrightarrow>
   read_lines s e (pre @ rest) st = read_lines s e rest (read_lines s e pre st)"
proof (induction pre arbitrary: st)
  case Nil
  then show ?case by simp
next
  case (Cons l pre)
  obtain st' stop where pl: "process_line s e l st = (st', stop)"
    by (cases "process_line s e l st")
  have "\<not> stop" using process_line_stops_iff [of s e l st] pl Cons.prems by simp
  then show ?case using Cons pl by simp
qed

lemma read_lines_stop:
  "is_terminator l \<Longrightarrow> read_lines s e (l # rest) st = st"
  by (simp add: process_line_terminator_state)

section \<open>The buffer of a run\<close>

lemma run_invariant:
  "map_invariant s e (memoryMap (read_lines s e ls initial_state))"
  by (rule read_lines_invariant [OF initial_invariant])

lemma construct_binary_defined:
  "\<exists>buf f. construct_binary s n m = Some (buf, f)"
  unfolding construct_binary_def by (rule populate_defined) simp

lemma construct_binary_length:
  "construct_binary s n m = Some (buf, f) \<Longrightarrow> length buf = unat n"
  unfolding construct_binary_def by (drule populate_length) simp

lemma construct_binary_found:
  "construct_binary s n m = Some (buf, f) \<Longrightarrow> f = (\<exists>a\<in>fst ` set m. in_window s (s + n) a)"
  unfolding construct_binary_def by (drule populate_found) simp

lemma construct_binary_nth:
  assumes "construct_binary s n m = Some (buf, f)"
    and "keys_ascending m"
    and "i < unat n"
  shows "buf ! i =
     (case map_of m (s + of_nat i) of
        Some v \<Rightarrow> if in_window s (s + n) (s + of_nat i) then v else 0xFF
      | None \<Rightarrow> 0xFF)"
proof -
  have rep: "replicate (unat n) (0xFF :: 8 word) ! i = 0xFF" using assms(3) by simp
  have len: "length (replicate (unat n) (0xFF :: 8 word)) = unat n" by simp
  show ?thesis
    using populate_nth [OF assms(1) [unfolded construct_binary_def]
        keys_ascending_distinct [OF assms(2)] len assms(3)]
    unfolding rep .
qed

lemma construct_binary_at_address:
  assumes "construct_binary s n m = Some (buf, f)"
    and "keys_ascending m"
    and "map_of m a = Some v"
    and "in_window s (s + n) a"
  shows "unat (a - s) < length buf \<and> buf ! unat (a - s) = v"
proof -
  have idx: "unat (a - s) < unat n" using assms(4) window_index [of s a n] by simp
  from construct_binary_nth [OF assms(1,2) idx] assms(3,4)
  have "buf ! unat (a - s) = v" by simp
  with idx construct_binary_length [OF assms(1)] show ?thesis by simp
qed

lemma overflow_window_empty:
  fixes s n a :: "32 word"
  assumes "2 ^ 32 \<le> unat s + unat n"
  shows "\<not> in_window s (s + n) a"
proof
  assume win: "in_window s (s + n) a"
  have bs: "unat s < 2 ^ 32" and bn: "unat n < 2 ^ 32"
    using unsigned_less [of s, where ?'a = nat] unsigned_less [of n, where ?'a = nat] by simp_all
  have "unat (s + n) = (unat s + unat n) mod 2 ^ 32"
    by (simp add: unat_word_ariths)
  also have "\<dots> = (unat s + unat n - 2 ^ 32) mod 2 ^ 32"
    using assms by (simp add: le_mod_geq)
  also have "\<dots> = unat s + unat n - 2 ^ 32"
    using bs bn by simp
  finally have "unat (s + n) < unat s" using bn assms by simp
  moreover have "unat s \<le> unat a" "unat a < unat (s + n)"
    using win by (simp_all add: word_le_nat_alt word_less_nat_alt)
  ultimately show False by simp
qed

text \<open>
  C1. For every list of input lines and every window, the output buffer built from the
  assembled map exists (no write falls outside it), has exactly \<open>bankSize\<close> bytes, and
  its byte at index \<open>i\<close> is the map's value for address \<open>startAddress + i\<close> when the
  map has an entry there inside the window, and the erase value \<open>0xFF\<close> otherwise.
\<close>

theorem output_buffer_contents:
  "let m = memoryMap (read_lines startAddress (startAddress + bankSize) lines initial_state)
   in \<exists>binaryData found.
        construct_binary startAddress bankSize m = Some (binaryData, found)
        \<and> length binaryData = unat bankSize
        \<and> (\<forall>i<unat bankSize.
              binaryData ! i =
                (case map_of m (startAddress + of_nat i) of
                   Some v \<Rightarrow>
                     if in_window startAddress (startAddress + bankSize) (startAddress + of_nat i)
                     then v else 0xFF
                 | None \<Rightarrow> 0xFF))"
proof -
  define m where "m = memoryMap (read_lines startAddress (startAddress + bankSize) lines initial_state)"
  obtain buf f where cb: "construct_binary startAddress bankSize m = Some (buf, f)"
    using construct_binary_defined by blast
  have asc: "keys_ascending m"
    using run_invariant [of startAddress "startAddress + bankSize" lines]
    by (simp add: m_def map_invariant_def)
  have "length buf = unat bankSize" using cb by (rule construct_binary_length)
  moreover have "\<forall>i<unat bankSize. buf ! i =
      (case map_of m (startAddress + of_nat i) of
         Some v \<Rightarrow>
           if in_window startAddress (startAddress + bankSize) (startAddress + of_nat i)
           then v else 0xFF
       | None \<Rightarrow> 0xFF)"
    using construct_binary_nth [OF cb asc] by blast
  ultimately show ?thesis using cb unfolding Let_def m_def [symmetric] by blast
qed

lemma example_map:
  "memoryMap (read_lines 0x08000000 (0x08000000 + 0x4)
       ['':020000040800F2'', '':02000100ADBE92''] initial_state) =
     [(0x08000001, 0xAD), (0x08000002, 0xBE)]"
  by code_simp

theorem output_buffer_contents_witness:
  "construct_binary 0x08000000 0x4
     (memoryMap (read_lines 0x08000000 (0x08000000 + 0x4)
        ['':020000040800F2'', '':02000100ADBE92''] initial_state))
   = Some ([0xFF, 0xAD, 0xBE, 0xFF], True)"
proof -
  let ?m = "memoryMap (read_lines 0x08000000 (0x08000000 + 0x4)
        ['':020000040800F2'', '':02000100ADBE92''] initial_state)"
  from output_buffer_contents [of "0x08000000" "0x4" "['':020000040800F2'', '':02000100ADBE92'']"]
  obtain buf f where cb: "construct_binary 0x08000000 0x4 ?m = Some (buf, f)"
    and len: "length buf = unat (0x4 :: 32 word)"
    and nth: "\<forall>i<unat (0x4 :: 32 word). buf ! i =
        (case map_of ?m (0x08000000 + of_nat i) of
           Some v \<Rightarrow> if in_window 0x08000000 (0x08000000 + 0x4) (0x08000000 + of_nat i)
                     then v else 0xFF
         | None \<Rightarrow> 0xFF)"
    unfolding Let_def by blast
  have l4: "length buf = 4" using len by simp
  have "buf ! 0 = 0xFF" "buf ! 1 = 0xAD" "buf ! 2 = 0xBE" "buf ! 3 = 0xFF"
    using nth [rule_format, of 0] nth [rule_format, of 1] nth [rule_format, of 2]
      nth [rule_format, of 3]
    unfolding example_map by simp_all
  with l4 have "buf = [0xFF, 0xAD, 0xBE, 0xFF]"
    by (auto simp: list_eq_iff_nth_eq less_Suc_eq eval_nat_numeral)
  moreover have "f" using construct_binary_found [OF cb] unfolding example_map by simp
  ultimately show ?thesis using cb by simp
qed

section \<open>The run as a whole\<close>

lemma hex_tool_cases:
  assumes "construct_binary s n (memoryMap (read_lines s (s + n) ls initial_state)) = Some (buf, f)"
  shows "hex_tool (Some ls) out s n =
     Some (if \<not> f then
             \<lparr>exit_status = 1, fatal = Some No_Data_Found,
              line_warnings = warnings (read_lines s (s + n) ls initial_state),
              parsed_message = True, bin_file = None, generated_hash = None\<rparr>
           else if \<not> out then
             \<lparr>exit_status = 1, fatal = Some Could_Not_Create_Output,
              line_warnings = warnings (read_lines s (s + n) ls initial_state),
              parsed_message = True, bin_file = None, generated_hash = None\<rparr>
           else
             \<lparr>exit_status = 0, fatal = None,
              line_warnings = warnings (read_lines s (s + n) ls initial_state),
              parsed_message = True, bin_file = Some buf, generated_hash = Some (crc32 buf)\<rparr>)"
  using assms by (simp add: hex_tool_def Let_def)

lemma found_iff_entry:
  assumes "construct_binary s n m = Some (buf, f)"
  shows "f \<longleftrightarrow> (\<exists>a. in_window s (s + n) a \<and> map_of m a \<noteq> None)"
proof -
  have "f = (\<exists>a\<in>fst ` set m. in_window s (s + n) a)"
    using assms by (rule construct_binary_found)
  also have "\<dots> = (\<exists>a. in_window s (s + n) a \<and> a \<in> dom (map_of m))"
    by (auto simp: dom_map_of_conv_image_fst)
  finally show ?thesis by (auto simp: dom_def)
qed

lemma empty_window_map:
  assumes "2 ^ 32 \<le> unat s + unat n"
  shows "memoryMap (read_lines s (s + n) ls initial_state) = []"
proof -
  have "\<forall>a\<in>fst ` set (memoryMap (read_lines s (s + n) ls initial_state)). in_window s (s + n) a"
    using run_invariant [of s "s + n" ls] by (simp add: map_invariant_def)
  then have "set (memoryMap (read_lines s (s + n) ls initial_state)) = {}"
    using overflow_window_empty [OF assms] by fastforce
  then show ?thesis by simp
qed

lemma construct_binary_empty:
  "construct_binary s n [] = Some (replicate (unat n) 0xFF, False)"
  by (simp add: construct_binary_def)

text \<open>
  C3, as the code has it. When \<open>startAddress + bankSize\<close> exceeds \<open>2^32\<close> the end
  address wraps around; no address satisfies \<open>startAddress \<le> a < endAddress\<close>, so the
  line loop runs over the whole input and stores nothing, and the run ends with status 1
  and the no-data error, writing no output file.
\<close>

theorem overflowing_window_reports_no_data:
  "2 ^ 32 < unat startAddress + unat bankSize \<Longrightarrow>
     unat (startAddress + bankSize) = unat startAddress + unat bankSize - 2 ^ 32
     \<and> memoryMap (read_lines startAddress (startAddress + bankSize) lines initial_state) = []
     \<and> hex_tool (Some lines) binFileOpens startAddress bankSize =
         Some \<lparr>exit_status = 1, fatal = Some No_Data_Found,
               line_warnings =
                 warnings (read_lines startAddress (startAddress + bankSize) lines initial_state),
               parsed_message = True, bin_file = None, generated_hash = None\<rparr>"
proof -
  assume over: "2 ^ 32 < unat startAddress + unat bankSize"
  then have ge: "2 ^ 32 \<le> unat startAddress + unat bankSize" by simp
  have bs: "unat startAddress < 2 ^ 32" and bn: "unat bankSize < 2 ^ 32"
    using unsigned_less [of startAddress, where ?'a = nat]
      unsigned_less [of bankSize, where ?'a = nat] by simp_all
  have "unat (startAddress + bankSize) = (unat startAddress + unat bankSize) mod 2 ^ 32"
    by (simp add: unat_word_ariths)
  also have "\<dots> = (unat startAddress + unat bankSize - 2 ^ 32) mod 2 ^ 32"
    using ge by (simp add: le_mod_geq)
  also have "\<dots> = unat startAddress + unat bankSize - 2 ^ 32"
    using bs bn by simp
  finally have wrap: "unat (startAddress + bankSize) = unat startAddress + unat bankSize - 2 ^ 32" .
  note m = empty_window_map [OF ge, of lines]
  have cb: "construct_binary startAddress bankSize
      (memoryMap (read_lines startAddress (startAddress + bankSize) lines initial_state))
      = Some (replicate (unat bankSize) 0xFF, False)"
    unfolding m by (rule construct_binary_empty)
  show ?thesis using wrap m hex_tool_cases [OF cb, of binFileOpens] by simp
qed

lemma overflow_example_sum: "2 ^ 32 < unat (0xFFFFFF00 :: 32 word) + unat (0x200 :: 32 word)"
  by simp

theorem overflowing_window_reports_no_data_witness:
  "2 ^ 32 < unat (0xFFFFFF00 :: 32 word) + unat (0x200 :: 32 word)
   \<and> unat ((0xFFFFFF00 :: 32 word) + 0x200) = 0x100
   \<and> exit_status (the (hex_tool (Some ['':02000004FFFFFC'', '':01FFFF00AA57'']) True
         0xFFFFFF00 0x200)) = 1"
  using overflowing_window_reports_no_data [OF overflow_example_sum,
      of "['':02000004FFFFFC'', '':01FFFF00AA57'']" True]
  by simp

lemma overflow_counterexample_sum:
  "2 ^ 32 < unat (0xFFFFFFFF :: 32 word) + unat (0x2 :: 32 word)"
  by simp

lemma overflow_counterexample_run:
  "hex_tool (Some ['':02000004FFFFFC'', '':01FFFF00AA57'', '':zz'']) True 0xFFFFFFFF 0x2 =
     Some \<lparr>exit_status = 1, fatal = Some No_Data_Found,
           line_warnings = [('':zz'', Invalid_Argument)],
           parsed_message = True, bin_file = None, generated_hash = None\<rparr>"
  by code_simp

text \<open>
  C3, as stated, fails. For \<open>startAddress = 0xFFFFFFFF\<close> and \<open>bankSize = 2\<close> the sum
  exceeds \<open>2^32\<close>; the run goes on with the wrapped end address \<open>1\<close>, reads every
  line (it warns about the third one, and drops the byte at \<open>0xFFFFFFFF\<close> of the
  second one although that address is in the requested window), and what it reports in
  the end is that no data was found, not an overflow.
\<close>

theorem overflow_is_not_detected:
  "2 ^ 32 < unat (0xFFFFFFFF :: 32 word) + unat (0x2 :: 32 word)
   \<and> (0xFFFFFFFF :: 32 word) + 0x2 = 0x1
   \<and> hex_tool (Some ['':02000004FFFFFC'', '':01FFFF00AA57'', '':zz'']) True 0xFFFFFFFF 0x2 =
       Some \<lparr>exit_status = 1, fatal = Some No_Data_Found,
             line_warnings = [('':zz'', Invalid_Argument)],
             parsed_message = True, bin_file = None, generated_hash = None\<rparr>"
  using overflow_counterexample_sum overflow_counterexample_run by simp

lemma read_lines_stopped:
  "\<exists>l\<in>set pre. is_terminator l \<Longrightarrow>
   read_lines s e (pre @ rest) st = read_lines s e pre st"
proof (induction pre arbitrary: st)
  case Nil
  then show ?case by simp
next
  case (Cons l pre)
  obtain st' stop where pl: "process_line s e l st = (st', stop)"
    by (cases "process_line s e l st")
  show ?case
  proof (cases stop)
    case True
    then show ?thesis using pl by simp
  next
    case False
    then have "\<not> is_terminator l" using process_line_stops_iff [of s e l st] pl by simp
    with Cons.prems have "\<exists>l\<in>set pre. is_terminator l" by simp
    from Cons.IH [OF this] show ?thesis using pl False by simp
  qed
qed

lemma read_lines_after_terminator:
  assumes "is_terminator l"
  shows "read_lines s e (pre @ l # post) st = read_lines s e pre st"
proof (cases "\<exists>x\<in>set pre. is_terminator x")
  case True
  from read_lines_stopped [OF this] show ?thesis .
next
  case False
  then have "\<forall>x\<in>set pre. \<not> is_terminator x" by simp
  from read_lines_append [OF this, of s e "l # post" st]
    read_lines_stop [OF assms, of s e post "read_lines s e pre st"]
  show ?thesis by (simp del: read_lines.simps)
qed

text \<open>
  C5. Once a Terminator record is processed no further line is interpreted: whatever
  lines follow it, the state after the loop (memory map, high-address base, warnings) is
  the state the loop had reached before the terminator, and the run gives the same
  result as on the file cut after the terminator.
\<close>

theorem terminator_stops_reading:
  "is_terminator l \<Longrightarrow>
     read_lines s e (pre @ l # post) st = read_lines s e (pre @ [l]) st
     \<and> read_lines s e (pre @ l # post) st = read_lines s e pre st
     \<and> hex_tool (Some (pre @ l # post)) binFileOpens startAddress bankSize =
         hex_tool (Some (pre @ [l])) binFileOpens startAddress bankSize"
  using read_lines_after_terminator [of l]
  by (simp add: hex_tool_def)

lemma end_of_file_record: "is_terminator '':00000001FF''"
  by code_simp

lemma terminator_example_run:
  "hex_tool (Some ['':0100000011EE'', '':00000001FF'']) True 0x0 0x2 =
     Some \<lparr>exit_status = 0, fatal = None, line_warnings = [], parsed_message = True,
           bin_file = Some [0x11, 0xFF], generated_hash = Some (crc32 [0x11, 0xFF])\<rparr>"
  by code_simp

theorem terminator_stops_reading_witness:
  "is_terminator '':00000001FF''
   \<and> hex_tool (Some ['':0100000011EE'', '':00000001FF'', '':0100000022DD'', '':0100010033CB''])
        True 0x0 0x2 =
       Some \<lparr>exit_status = 0, fatal = None, line_warnings = [], parsed_message = True,
             bin_file = Some [0x11, 0xFF], generated_hash = Some (crc32 [0x11, 0xFF])\<rparr>"
  using terminator_stops_reading [OF end_of_file_record,
      of _ _ "['':0100000011EE'']" "['':0100000022DD'', '':0100010033CB'']" _ True "0x0" "0x2"]
    end_of_file_record terminator_example_run
  by simp

section \<open>What one record does to the map\<close>

lemma unat_byte_count: "unat (bc :: 8 word) \<le> 256"
  using unsigned_less [of bc, where ?'a = nat] by simp

lemma data_record_writes:
  assumes "candidate l" "parse_header l = Inr (bc, off, 0x00)"
    and "k < unat bc"
    and "in_window s e (extendedLinearAddress st + ucast off + of_nat k)"
    and "\<forall>j<k. in_window s e (extendedLinearAddress st + ucast off + of_nat j)
           \<longrightarrow> \<not> isl (payload_byte l j)"
    and "payload_byte l k = Inr v"
  shows "map_of (memoryMap (fst (process_line s e l st)))
           (extendedLinearAddress st + ucast off + of_nat k) = Some v"
proof -
  let ?cur = "extendedLinearAddress st + ucast off"
  obtain thrown m where dl: "data_loop s e l ?cur (unat bc) 0 (memoryMap st) = (thrown, m)"
    by (cases "data_loop s e l ?cur (unat bc) 0 (memoryMap st)")
  have before: "\<forall>j. 0 \<le> j \<and> j < k \<and> in_window s e (?cur + of_nat j)
      \<longrightarrow> \<not> isl (payload_byte l j)"
    using assms(5) by simp
  have "map_of (snd (data_loop s e l ?cur (unat bc) 0 (memoryMap st))) (?cur + of_nat k) = Some v"
    by (rule data_loop_written [OF _ assms(3) unat_byte_count assms(4) before assms(6)]) simp
  then have "map_of m (?cur + of_nat k) = Some v" using dl by simp
  with process_line_data [OF assms(1,2), of s e st] dl show ?thesis
    by (cases thrown) simp_all
qed

lemma data_record_warns_iff:
  assumes "candidate l" "parse_header l = Inr (bc, off, 0x00)"
  shows "warnings (fst (process_line s e l st)) =
           (if \<exists>i<unat bc. in_window s e (extendedLinearAddress st + ucast off + of_nat i)
                             \<and> isl (payload_byte l i)
            then warnings st @ [(l, the (fst (data_loop s e l (extendedLinearAddress st + ucast off)
                                               (unat bc) 0 (memoryMap st))))]
            else warnings st)"
proof -
  let ?cur = "extendedLinearAddress st + ucast off"
  obtain thrown m where dl: "data_loop s e l ?cur (unat bc) 0 (memoryMap st) = (thrown, m)"
    by (cases "data_loop s e l ?cur (unat bc) 0 (memoryMap st)")
  have "thrown \<noteq> None \<longleftrightarrow>
      (\<exists>i<unat bc. in_window s e (?cur + of_nat i) \<and> isl (payload_byte l i))"
    using data_loop_throws_iff [of s e l ?cur "unat bc" 0 "memoryMap st"] dl by simp
  with process_line_data [OF assms, of s e st] dl show ?thesis
    by (cases thrown) simp_all
qed

lemma process_line_base:
  assumes "\<not> (candidate l \<and> (\<exists>bc off. parse_header l = Inr (bc, off, 0x04)))"
  shows "extendedLinearAddress (fst (process_line s e l st)) = extendedLinearAddress st"
proof (cases l rule: process_line_cases)
  case skip
  from process_line_skip [OF this, of s e st] show ?thesis by simp
next
  case (header_fails ex)
  from process_line_header_fails [OF this, of s e st] show ?thesis by simp
next
  case (terminator bc off)
  from process_line_terminator [OF this, of s e st] show ?thesis by simp
next
  case (extended bc off)
  with assms show ?thesis by blast
next
  case (data bc off)
  from process_line_data [OF this, of s e st] show ?thesis
    by (simp split: prod.splits option.splits)
next
  case (other bc off rt)
  from process_line_other [OF this, of s e st] show ?thesis by simp
qed



lemma read_lines_snoc:
  assumes "\<forall>x\<in>set pre. \<not> is_terminator x"
  shows "read_lines s e (pre @ [l]) st = fst (process_line s e l (read_lines s e pre st))"
proof -
  have "read_lines s e (pre @ [l]) st = read_lines s e [l] (read_lines s e pre st)"
    by (rule read_lines_append [OF assms])
  then show ?thesis by (simp split: prod.splits bool.splits)
qed

lemma read_lines_then:
  assumes "\<forall>x\<in>set pre. \<not> is_terminator x" "\<not> is_terminator l"
  shows "read_lines s e (pre @ l # post) st =
         read_lines s e post (fst (process_line s e l (read_lines s e pre st)))"
proof -
  have "\<forall>x\<in>set (pre @ [l]). \<not> is_terminator x" using assms by simp
  from read_lines_append [OF this, of s e post st] read_lines_snoc [OF assms(1), of s e l st]
  show ?thesis by simp
qed

lemma data_line_not_terminator:
  "parse_header l = Inr (bc, off, 0x00) \<Longrightarrow> \<not> is_terminator l"
  by (simp add: is_terminator_def)

lemma run_buffer_at:
  assumes "map_of (memoryMap (read_lines s (s + n) ls initial_state)) a = Some v"
  shows "\<exists>buf. output_buffer ls s n = Some buf
           \<and> unat (a - s) < length buf \<and> buf ! unat (a - s) = v"
proof -
  let ?m = "memoryMap (read_lines s (s + n) ls initial_state)"
  have inv: "map_invariant s (s + n) ?m" by (rule run_invariant)
  then have asc: "keys_ascending ?m" by (simp add: map_invariant_def)
  have "a \<in> fst ` set ?m" using assms by (metis map_of_eq_None_iff option.distinct(1))
  with inv have win: "in_window s (s + n) a" unfolding map_invariant_def by blast
  obtain buf f where cb: "construct_binary s n ?m = Some (buf, f)"
    using construct_binary_defined by blast
  have f using found_iff_entry [OF cb] win assms by auto
  with hex_tool_cases [OF cb, of True] have "output_buffer ls s n = Some buf"
    by (simp add: output_buffer_def)
  with construct_binary_at_address [OF cb asc assms win] show ?thesis by simp
qed

section \<open>Last write wins\<close>










section \<open>A failing record keeps what it stored\<close>

text \<open>
  C10. No roll-back. Let a Data record \<open>l\<close>, processed after the lines \<open>pre\<close>, fail at
  its in-window byte number \<open>k\<close> and at none before. The line is reported in a warning,
  and every in-window byte \<open>j < k\<close> that was read as \<open>v\<close> is in the memory map and in
  the output buffer of the run.
\<close>

theorem partial_record_stays_committed:
  assumes "\<forall>x\<in>set pre. \<not> is_terminator x"
    and "candidate l" and "parse_header l = Inr (bc, off, 0x00)"
    and "base = extendedLinearAddress (read_lines s (s + n) pre initial_state)"
    and "k < unat bc"
    and "in_window s (s + n) (base + ucast off + of_nat k)"
    and "isl (payload_byte l k)"
    and "\<forall>i<k. in_window s (s + n) (base + ucast off + of_nat i) \<longrightarrow> \<not> isl (payload_byte l i)"
    and "j < k"
    and "in_window s (s + n) (base + ucast off + of_nat j)"
    and "payload_byte l j = Inr v"
  shows "(\<exists>ex. warnings (read_lines s (s + n) (pre @ [l]) initial_state) =
                warnings (read_lines s (s + n) pre initial_state) @ [(l, ex)])
       \<and> map_of (memoryMap (read_lines s (s + n) (pre @ [l]) initial_state))
            (base + ucast off + of_nat j) = Some v
       \<and> (\<exists>buf. output_buffer (pre @ [l]) s n = Some buf
             \<and> unat (base + ucast off + of_nat j - s) < length buf
             \<and> buf ! unat (base + ucast off + of_nat j - s) = v)"
proof -
  let ?st1 = "read_lines s (s + n) pre initial_state"
  let ?st2 = "fst (process_line s (s + n) l ?st1)"
  have snoc: "read_lines s (s + n) (pre @ [l]) initial_state = ?st2"
    by (rule read_lines_snoc [OF assms(1)])
  have jbc: "j < unat bc" using assms(5,9) by simp
  have before: "\<forall>i<j. in_window s (s + n) (extendedLinearAddress ?st1 + ucast off + of_nat i)
      \<longrightarrow> \<not> isl (payload_byte l i)"
    using assms(4,8,9) by simp
  have written: "map_of (memoryMap ?st2) (base + ucast off + of_nat j) = Some v"
    using data_record_writes [OF assms(2,3) jbc _ before assms(11)] assms(4,10)
    by simp
  have "\<exists>i<unat bc. in_window s (s + n) (extendedLinearAddress ?st1 + ucast off + of_nat i)
      \<and> isl (payload_byte l i)"
    using assms(4,5,6,7) by blast
  then have "\<exists>ex. warnings ?st2 = warnings ?st1 @ [(l, ex)]"
    using data_record_warns_iff [OF assms(2,3), of s "s + n" ?st1] by simp
  moreover have "\<exists>buf. output_buffer (pre @ [l]) s n = Some buf
             \<and> unat (base + ucast off + of_nat j - s) < length buf
             \<and> buf ! unat (base + ucast off + of_nat j - s) = v"
    by (rule run_buffer_at) (simp add: snoc written)
  ultimately show ?thesis using written snoc by simp
qed

lemma pr_pre: "\<forall>x\<in>set ['':020000040800F2'']. \<not> is_terminator x"
  by code_simp

lemma pr_candidate: "candidate '':03001000AABBZZ''"
  by code_simp

lemma pr_header: "parse_header '':03001000AABBZZ'' = Inr (0x03, 0x0010, 0x00)"
  by code_simp

lemma pr_base:
  "0x08000000 = extendedLinearAddress (read_lines 0x08000000 (0x08000000 + 0x100)
      ['':020000040800F2''] initial_state)"
  by code_simp

lemma pr_fails: "isl (payload_byte '':03001000AABBZZ'' 2)"
  by code_simp

lemma pr_before:
  "\<forall>i<2. in_window 0x08000000 (0x08000000 + 0x100) (0x08000000 + ucast (0x0010 :: 16 word) + of_nat i)
     \<longrightarrow> \<not> isl (payload_byte '':03001000AABBZZ'' i)"
proof -
  have "\<not> isl (payload_byte '':03001000AABBZZ'' 0)" "\<not> isl (payload_byte '':03001000AABBZZ'' 1)"
    by code_simp+
  then show ?thesis by (simp add: less_Suc_eq eval_nat_numeral)
qed

lemma pr_byte: "payload_byte '':03001000AABBZZ'' 1 = Inr 0xBB"
  by code_simp

theorem partial_record_stays_committed_witness:
  "(\<exists>ex. warnings (read_lines 0x08000000 (0x08000000 + 0x100)
              (['':020000040800F2''] @ ['':03001000AABBZZ'']) initial_state)
          = warnings (read_lines 0x08000000 (0x08000000 + 0x100) ['':020000040800F2'']
              initial_state) @ [('':03001000AABBZZ'', ex)])
   \<and> (\<exists>buf. output_buffer (['':020000040800F2''] @ ['':03001000AABBZZ'']) 0x08000000 0x100
                = Some buf \<and> buf ! 0x11 = 0xBB)"
proof -
  have k: "2 < unat (0x03 :: 8 word)" by simp
  have wk: "in_window 0x08000000 (0x08000000 + 0x100)
      (0x08000000 + ucast (0x0010 :: 16 word) + of_nat 2 :: 32 word)" by simp
  have wj: "in_window 0x08000000 (0x08000000 + 0x100)
      (0x08000000 + ucast (0x0010 :: 16 word) + of_nat 1 :: 32 word)" by simp
  have jk: "(1 :: nat) < 2" by simp
  from partial_record_stays_committed
    [OF pr_pre pr_candidate pr_header pr_base k wk pr_fails pr_before jk wj pr_byte]
  show ?thesis by auto
qed

section \<open>Which lines fail to parse\<close>

lemma parse_header_fails_iff:
  "isl (parse_header l) \<longleftrightarrow>
     isl (hex_field l 1 2) \<or> isl (hex_field l 3 4) \<or> isl (hex_field l 7 2)"
  by (simp add: parse_header_def split: sum.splits)









lemma lenient_example_digit:
  "process_line 0x0 0x10 '':0100000GAA57'' initial_state =
     (\<lparr>memoryMap = [(0x0, 0xAA)], extendedLinearAddress = 0x0, warnings = []\<rparr>, False)"
  by code_simp

lemma lenient_example_short:
  "process_line 0x0 0x10 '':01000000A'' initial_state =
     (\<lparr>memoryMap = [(0x0, 0x0A)], extendedLinearAddress = 0x0, warnings = []\<rparr>, False)"
  by code_simp

text \<open>
  C8, as stated, fails. The line \<open>:0100000GAA57\<close> has the malformed digit \<open>G\<close> in its
  record type, which is read as \<open>0\<close>; the line \<open>:01000000A\<close> declares one payload byte
  and holds half of it, which is read as \<open>0x0A\<close>. Both are processed as Data records,
  without a parse failure.
\<close>

theorem malformed_line_without_failure:
  "process_line 0x0 0x10 '':0100000GAA57'' initial_state =
     (\<lparr>memoryMap = [(0x0, 0xAA)], extendedLinearAddress = 0x0, warnings = []\<rparr>, False)
   \<and> process_line 0x0 0x10 '':01000000A'' initial_state =
     (\<lparr>memoryMap = [(0x0, 0x0A)], extendedLinearAddress = 0x0, warnings = []\<rparr>, False)"
  using lenient_example_digit lenient_example_short by simp

text \<open>
  C8, as the code has it. When a field that the code reads on a candidate line cannot be
  converted (one of the three header fields, the address field of a type 4 record, or an
  in-window payload byte of a Data record: \<open>hex_field\<close> fails when the field starts
  beyond the end of the line or holds no hex digit after optional white space, sign and
  \<open>0x\<close>), the line is reported in a warning, the loop is not left, the base is
  unchanged, and reading goes on with the next line.
\<close>

theorem unreadable_field_is_recoverable:
  assumes "candidate l"
    and "isl (hex_field l 1 2) \<or> isl (hex_field l 3 4) \<or> isl (hex_field l 7 2)
         \<or> (\<exists>bc off. parse_header l = Inr (bc, off, 0x04) \<and> isl (hex_field l 9 4))
         \<or> (\<exists>bc off i. parse_header l = Inr (bc, off, 0x00) \<and> i < unat bc
               \<and> in_window s e (extendedLinearAddress st + ucast off + of_nat i)
               \<and> isl (payload_byte l i))"
  shows "(\<exists>ex. warnings (fst (process_line s e l st)) = warnings st @ [(l, ex)])
       \<and> \<not> snd (process_line s e l st)
       \<and> extendedLinearAddress (fst (process_line s e l st)) = extendedLinearAddress st
       \<and> read_lines s e (l # rest) st = read_lines s e rest (fst (process_line s e l st))"
proof -
  have warn: "\<exists>ex. warnings (fst (process_line s e l st)) = warnings st @ [(l, ex)]"
    and base: "extendedLinearAddress (fst (process_line s e l st)) = extendedLinearAddress st"
  proof -
    from assms(2) consider
        (header) "isl (parse_header l)"
      | (address) bc off where "parse_header l = Inr (bc, off, 0x04)" "isl (hex_field l 9 4)"
      | (byte) bc off i where "parse_header l = Inr (bc, off, 0x00)" "i < unat bc"
          "in_window s e (extendedLinearAddress st + ucast off + of_nat i)"
          "isl (payload_byte l i)"
      using parse_header_fails_iff [of l] by blast
    then have "(\<exists>ex. warnings (fst (process_line s e l st)) = warnings st @ [(l, ex)])
        \<and> extendedLinearAddress (fst (process_line s e l st)) = extendedLinearAddress st"
    proof cases
      case header
      then obtain ex where "parse_header l = Inl ex" by (cases "parse_header l") auto
      from process_line_header_fails [OF assms(1) this, of s e st] show ?thesis by simp
    next
      case address
      from address(2) obtain ex where "hex_field l 9 4 = Inl ex"
        by (cases "hex_field l 9 4") auto
      with process_line_extended [OF assms(1) address(1), of s e st] show ?thesis by simp
    next
      case byte
      have "\<exists>i<unat bc. in_window s e (extendedLinearAddress st + ucast off + of_nat i)
          \<and> isl (payload_byte l i)"
        using byte(2,3,4) by blast
      then have "\<exists>ex. warnings (fst (process_line s e l st)) = warnings st @ [(l, ex)]"
        using data_record_warns_iff [OF assms(1) byte(1), of s e st] by simp
      moreover have "extendedLinearAddress (fst (process_line s e l st)) = extendedLinearAddress st"
        by (rule process_line_base) (simp add: byte(1))
      ultimately show ?thesis by simp
    qed
    then show "\<exists>ex. warnings (fst (process_line s e l st)) = warnings st @ [(l, ex)]"
      and "extendedLinearAddress (fst (process_line s e l st)) = extendedLinearAddress st"
      by simp_all
  qed
  have "\<not> is_terminator l"
  proof
    assume "is_terminator l"
    from process_line_terminator_state [OF this, of s e st] warn show False by simp
  qed
  then have go: "\<not> snd (process_line s e l st)"
    by (simp add: process_line_stops_iff)
  then have "read_lines s e (l # rest) st = read_lines s e rest (fst (process_line s e l st))"
    by (cases "process_line s e l st") simp
  with warn base go show ?thesis by simp
qed

lemma uf_candidate: "candidate '':GG000000AA56''"
  by code_simp

lemma uf_field: "isl (hex_field '':GG000000AA56'' 1 2)"
  by code_simp

lemma uf_next:
  "memoryMap (read_lines 0x0 0x10 ['':01000100BB43'']
     (fst (process_line 0x0 0x10 '':GG000000AA56'' initial_state))) = [(0x1, 0xBB)]"
  by code_simp

theorem unreadable_field_is_recoverable_witness:
  "(\<exists>ex. warnings (fst (process_line 0x0 0x10 '':GG000000AA56'' initial_state))
            = [('':GG000000AA56'', ex)])
   \<and> memoryMap (read_lines 0x0 0x10 ['':GG000000AA56'', '':01000100BB43''] initial_state)
       = [(0x1, 0xBB)]"
proof -
  have w0: "warnings initial_state = []" by (simp add: initial_state_def)
  note run = unreadable_field_is_recoverable [OF uf_candidate disjI1 [OF uf_field],
      of "0x0" "0x10" initial_state "['':01000100BB43'']"]
  from run have "read_lines 0x0 0x10 ['':GG000000AA56'', '':01000100BB43''] initial_state
      = read_lines 0x0 0x10 ['':01000100BB43'']
          (fst (process_line 0x0 0x10 '':GG000000AA56'' initial_state))"
    by blast
  then have "memoryMap (read_lines 0x0 0x10 ['':GG000000AA56'', '':01000100BB43''] initial_state)
      = [(0x1, 0xBB)]"
    using uf_next by (simp del: read_lines.simps)
  moreover from run have "\<exists>ex. warnings (fst (process_line 0x0 0x10 '':GG000000AA56'' initial_state))
            = [('':GG000000AA56'', ex)]"
    unfolding w0 by (simp del: read_lines.simps)
  ultimately show ?thesis by blast
qed

section \<open>The high-address base\<close>

lemma digit_value_range: "digit_value c = Some d \<Longrightarrow> 0 \<le> d \<and> d < 16"
  by (auto simp: digit_value_def Let_def split: if_splits)

lemma digit_not_space: "digit_value c \<noteq> None \<Longrightarrow> \<not> isspace c"
  by (auto simp: digit_value_def isspace_def Let_def split: if_splits)

lemma sign_not_digit: "digit_value CHR ''-'' = None" "digit_value CHR ''+'' = None"
  by (simp_all add: digit_value_def)

lemma x_not_digit: "digit_value CHR ''x'' = None" "digit_value CHR ''X'' = None"
  by (simp_all add: digit_value_def)

lemma strip_0x_digits:
  assumes "list_all (\<lambda>c. digit_value c \<noteq> None) s"
  shows "strip_0x s = s"
proof (cases s)
  case Nil
  then show ?thesis by (simp add: strip_0x_def)
next
  case (Cons z s1)
  show ?thesis
  proof (cases s1)
    case Nil
    with Cons show ?thesis by (simp add: strip_0x_def)
  next
    case (Cons x s2)
    have "digit_value x \<noteq> None" using assms \<open>s = z # s1\<close> Cons by simp
    then have "x \<noteq> CHR ''x''" "x \<noteq> CHR ''X''" using x_not_digit by auto
    then show ?thesis using \<open>s = z # s1\<close> Cons by (simp add: strip_0x_def split: list.splits)
  qed
qed

lemma strtol16_digits:
  assumes "s \<noteq> []" and "list_all (\<lambda>c. digit_value c \<noteq> None) s"
  shows "strtol16 s = Some (accumulate_digits 0 s)"
proof -
  obtain c cs where s: "s = c # cs" using assms(1) by (cases s) auto
  have d: "digit_value c \<noteq> None" using assms(2) s by simp
  have "dropWhile isspace s = s" using digit_not_space [OF d] s by simp
  moreover have "strip_sign s = (False, s)"
    using d sign_not_digit s by (auto simp: strip_sign_def)
  moreover note strip_0x_digits [OF assms(2)]
  ultimately show ?thesis using d s by (simp add: strtol16_def del: accumulate_digits.simps)
qed

lemma accumulate_digits_bounds:
  "0 \<le> acc \<Longrightarrow>
   0 \<le> accumulate_digits acc s \<and> accumulate_digits acc s < (acc + 1) * 16 ^ length s"
proof (induction s arbitrary: acc)
  case Nil
  then show ?case by simp
next
  case (Cons c cs)
  show ?case
  proof (cases "digit_value c")
    case None
    have one: "(1 :: int) \<le> 16 ^ length (c # cs)" by (rule one_le_power) simp
    have "acc < (acc + 1) * 1" by simp
    also have "\<dots> \<le> (acc + 1) * 16 ^ length (c # cs)"
      using Cons.prems one by (intro mult_left_mono) simp_all
    finally show ?thesis using None Cons.prems by simp
  next
    case (Some d)
    from digit_value_range [OF this] have d: "0 \<le> d" "d < 16" by simp_all
    then have nn: "0 \<le> 16 * acc + d" using Cons.prems by simp
    from Cons.IH [OF nn] have lo: "0 \<le> accumulate_digits (16 * acc + d) cs"
      and hi: "accumulate_digits (16 * acc + d) cs < (16 * acc + d + 1) * 16 ^ length cs"
      by simp_all
    have "(16 * acc + d + 1) * 16 ^ length cs \<le> (16 * acc + 16) * 16 ^ length cs"
      using d by (intro mult_right_mono) simp_all
    also have "\<dots> = (acc + 1) * 16 ^ length (c # cs)" by (simp add: algebra_simps)
    finally have "(16 * acc + d + 1) * 16 ^ length cs \<le> (acc + 1) * 16 ^ length (c # cs)" .
    with hi have "accumulate_digits (16 * acc + d) cs < (acc + 1) * 16 ^ length (c # cs)"
      by (rule less_le_trans)
    with lo Some show ?thesis by simp
  qed
qed

lemma accumulate_digits_append:
  "list_all (\<lambda>c. digit_value c \<noteq> None) xs \<Longrightarrow>
   accumulate_digits acc (xs @ ys) = accumulate_digits (accumulate_digits acc xs) ys"
  by (induction xs arbitrary: acc) auto

lemma accumulate_digits_shift:
  "list_all (\<lambda>c. digit_value c \<noteq> None) ys \<Longrightarrow>
   accumulate_digits acc ys = acc * 16 ^ length ys + accumulate_digits 0 ys"
proof (induction ys arbitrary: acc)
  case Nil
  then show ?case by simp
next
  case (Cons c cs)
  then obtain d where d: "digit_value c = Some d" by auto
  from Cons.prems have rest: "list_all (\<lambda>c. digit_value c \<noteq> None) cs" by simp
  have "accumulate_digits acc (c # cs) = (16 * acc + d) * 16 ^ length cs + accumulate_digits 0 cs"
    using Cons.IH [OF rest, of "16 * acc + d"] d by simp
  moreover have "accumulate_digits 0 (c # cs) = d * 16 ^ length cs + accumulate_digits 0 cs"
    using Cons.IH [OF rest, of d] d by simp
  ultimately show ?case by (simp add: algebra_simps)
qed

lemma hex_field_digits:
  assumes "hex_digits_at l pos n" and "0 < n" and "n \<le> 7"
  shows "hex_field l pos n = Inr (accumulate_digits 0 (take n (drop pos l)))"
    and "0 \<le> accumulate_digits 0 (take n (drop pos l))"
    and "accumulate_digits 0 (take n (drop pos l)) < 16 ^ n"
proof -
  let ?s = "take n (drop pos l)"
  from assms(1) have len: "pos + n \<le> length l" and dig: "list_all (\<lambda>c. digit_value c \<noteq> None) ?s"
    by (simp_all add: hex_digits_at_def)
  have ln: "length ?s = n" using len by simp
  then have ne: "?s \<noteq> []" using assms(2) by auto
  from accumulate_digits_bounds [of 0 ?s] ln
  show lo: "0 \<le> accumulate_digits 0 ?s" and hi: "accumulate_digits 0 ?s < 16 ^ n" by simp_all
  have "(16 :: int) ^ n \<le> 16 ^ 7" using assms(3) by (intro power_increasing) simp_all
  then have "accumulate_digits 0 ?s < 2 ^ 31" using hi by simp
  then have "stoi16 ?s = Inr (accumulate_digits 0 ?s)"
    using lo by (simp add: stoi16_def strtol16_digits [OF ne dig])
  then show "hex_field l pos n = Inr (accumulate_digits 0 ?s)"
    using len by (simp add: hex_field_def substr_def)
qed

lemma hex_digits_at_split:
  assumes "hex_digits_at l pos (m + n)"
  shows "hex_digits_at l pos m" and "hex_digits_at l (pos + m) n"
    and "take (m + n) (drop pos l) = take m (drop pos l) @ take n (drop (pos + m) l)"
proof -
  have eq: "take (m + n) (drop pos l) = take m (drop pos l) @ take n (drop (pos + m) l)"
    by (simp add: take_add add.commute)
  then show "take (m + n) (drop pos l) = take m (drop pos l) @ take n (drop (pos + m) l)" .
  from assms show "hex_digits_at l pos m" "hex_digits_at l (pos + m) n"
    unfolding hex_digits_at_def eq by simp_all
qed

lemma address_field_big_endian:
  assumes "hex_digits_at l 9 4"
  shows "\<exists>b0 b1. hex_field l 9 2 = Inr b0 \<and> hex_field l 11 2 = Inr b1
           \<and> 0 \<le> b0 \<and> b0 < 256 \<and> 0 \<le> b1 \<and> b1 < 256
           \<and> hex_field l 9 4 = Inr (256 * b0 + b1)"
proof -
  from hex_digits_at_split [of l 9 2 2] assms
  have h0: "hex_digits_at l 9 2" and h1: "hex_digits_at l 11 2"
    and eq: "take 4 (drop 9 l) = take 2 (drop 9 l) @ take 2 (drop 11 l)"
    by simp_all
  let ?b0 = "accumulate_digits 0 (take 2 (drop 9 l))"
  let ?b1 = "accumulate_digits 0 (take 2 (drop 11 l))"
  have d0: "list_all (\<lambda>c. digit_value c \<noteq> None) (take 2 (drop 9 l))"
    and d1: "list_all (\<lambda>c. digit_value c \<noteq> None) (take 2 (drop 11 l))"
    using h0 h1 by (simp_all add: hex_digits_at_def)
  have "11 + 2 \<le> length l" using h1 by (simp add: hex_digits_at_def)
  then have l1: "length (take 2 (drop 11 l)) = 2" by (auto simp: min_def)
  have "accumulate_digits 0 (take 4 (drop 9 l)) = accumulate_digits ?b0 (take 2 (drop 11 l))"
    unfolding eq by (rule accumulate_digits_append [OF d0])
  also have "\<dots> = ?b0 * 16 ^ 2 + ?b1"
    using accumulate_digits_shift [OF d1, of ?b0] l1 by simp
  finally have "accumulate_digits 0 (take 4 (drop 9 l)) = 256 * ?b0 + ?b1" by simp
  with hex_field_digits [OF assms] hex_field_digits [OF h0] hex_field_digits [OF h1]
  show ?thesis by simp
qed

lemma ucast_16_32:
  "0 \<le> x \<Longrightarrow> x < 2 ^ 16 \<Longrightarrow> (ucast (word_of_int x :: 16 word) :: 32 word) = word_of_int x"
  by (simp add: unsigned_of_int take_bit_int_eq_self)

lemma ucast_8_32:
  "0 \<le> x \<Longrightarrow> x < 2 ^ 8 \<Longrightarrow> (ucast (word_of_int x :: 8 word) :: 32 word) = word_of_int x"
  by (simp add: unsigned_of_int take_bit_int_eq_self)


lemma not_extended_address:
  "\<not> is_extended_address l \<Longrightarrow>
   \<not> (candidate l \<and> (\<exists>bc off. parse_header l = Inr (bc, off, 0x04)))"
  by (auto simp: is_extended_address_def)

lemma read_lines_base:
  "\<forall>x\<in>set ls. \<not> is_extended_address x \<Longrightarrow>
   extendedLinearAddress (read_lines s e ls st) = extendedLinearAddress st"
proof (induction ls arbitrary: st)
  case Nil
  then show ?case by simp
next
  case (Cons x xs)
  obtain st' stop where pl: "process_line s e x st = (st', stop)"
    by (cases "process_line s e x st")
  from Cons.prems have "\<not> is_extended_address x" by simp
  from process_line_base [OF not_extended_address [OF this], of s e st] pl
  have here: "extendedLinearAddress st' = extendedLinearAddress st" by simp
  from Cons.prems have "\<forall>x\<in>set xs. \<not> is_extended_address x" by simp
  from Cons.IH [OF this, of st'] here pl show ?case by (cases stop) simp_all
qed

lemma extended_address_base:
  assumes "candidate l" and "parse_header l = Inr (bc, off, 0x04)" and "hex_digits_at l 9 4"
  shows "\<exists>hi lo. payload_byte l 0 = Inr hi \<and> payload_byte l 1 = Inr lo
           \<and> process_line s e l st =
               (st\<lparr>extendedLinearAddress := push_bit 16 (ucast hi * 256 + ucast lo)\<rparr>, False)"
proof -
  from address_field_big_endian [OF assms(3)] obtain b0 b1 where
    f0: "hex_field l 9 2 = Inr b0" and f1: "hex_field l 11 2 = Inr b1"
    and b0: "0 \<le> b0" "b0 < 256" and b1: "0 \<le> b1" "b1 < 256"
    and f: "hex_field l 9 4 = Inr (256 * b0 + b1)"
    by blast
  have p0: "payload_byte l 0 = Inr (word_of_int b0)" using f0 by (simp add: payload_byte_def)
  have p1: "payload_byte l 1 = Inr (word_of_int b1)" using f1 by (simp add: payload_byte_def)
  have "0 \<le> 256 * b0 + b1" "256 * b0 + b1 < 2 ^ 16" using b0 b1 by simp_all
  then have "(ucast (word_of_int (256 * b0 + b1) :: 16 word) :: 32 word)
      = word_of_int (256 * b0 + b1)"
    by (rule ucast_16_32)
  also have "\<dots> = (word_of_int b0 :: 32 word) * 256 + word_of_int b1" by simp
  also have "\<dots> = ucast (word_of_int b0 :: 8 word) * 256 + ucast (word_of_int b1 :: 8 word)"
    using b0 b1 by (simp add: ucast_8_32)
  finally have "process_line s e l st =
      (st\<lparr>extendedLinearAddress :=
           push_bit 16 (ucast (word_of_int b0 :: 8 word) * 256 + ucast (word_of_int b1 :: 8 word))\<rparr>,
       False)"
    using process_line_extended [OF assms(1,2), of s e st] f by simp
  with p0 p1 show ?thesis by blast
qed

lemma address_example:
  "memoryMap (read_lines 0x08000000 0x08000100 ['':020000040800F2'', '':01001000AA45'']
     initial_state) = [(0x08000010, 0xAA)]"
  by code_simp

text \<open>
  C4. An Extended-High-Address record whose first two payload bytes are well-formed hex
  sets the base to those two bytes, read as a big-endian 16-bit value, shifted left by 16
  bits, whatever the base was before. Until the next such record (and with no terminator
  in between) every byte of a following Data record that is stored is stored at that base
  plus the record's offset plus the byte's position. An Extended-High-Address record with
  payload \<open>08 00\<close> followed by a Data record with offset \<open>0x0010\<close> and one payload byte
  writes that byte at \<open>0x08000010\<close>.
\<close>

theorem extended_address_sets_base:
  assumes "candidate l4" and "parse_header l4 = Inr (bc4, off4, 0x04)"
    and "hex_digits_at l4 9 4"
    and "\<forall>x\<in>set mid. \<not> is_terminator x \<and> \<not> is_extended_address x"
    and "candidate ld" and "parse_header ld = Inr (bc, off, 0x00)"
  shows "(\<exists>hi lo.
           payload_byte l4 0 = Inr hi \<and> payload_byte l4 1 = Inr lo \<and>
           (let base = push_bit 16 (ucast hi * 256 + ucast lo) in
              extendedLinearAddress (fst (process_line s e l4 st)) = base
              \<and> (\<forall>k v. k < unat bc
                         \<and> in_window s e (base + ucast off + of_nat k)
                         \<and> (\<forall>j<k. in_window s e (base + ucast off + of_nat j)
                                     \<longrightarrow> \<not> isl (payload_byte ld j))
                         \<and> payload_byte ld k = Inr v
                    \<longrightarrow> map_of (memoryMap (read_lines s e (l4 # mid @ [ld]) st))
                          (base + ucast off + of_nat k) = Some v)))
       \<and> memoryMap (read_lines 0x08000000 0x08000100 ['':020000040800F2'', '':01001000AA45'']
            initial_state) = [(0x08000010, 0xAA)]"
proof -
  from extended_address_base [OF assms(1,2,3), of s e st] obtain hi lo where
    hi: "payload_byte l4 0 = Inr hi" and lo: "payload_byte l4 1 = Inr lo"
    and pl: "process_line s e l4 st =
      (st\<lparr>extendedLinearAddress := push_bit 16 (ucast hi * 256 + ucast lo)\<rparr>, False)"
    by blast
  define base :: "32 word" where "base = push_bit 16 (ucast hi * 256 + ucast lo)"
  define st4 where "st4 = st\<lparr>extendedLinearAddress := base\<rparr>"
  define st5 where "st5 = read_lines s e mid st4"
  have pl4: "process_line s e l4 st = (st4, False)" using pl by (simp add: st4_def base_def)
  have no_term: "\<forall>x\<in>set mid. \<not> is_terminator x" and no_ext: "\<forall>x\<in>set mid. \<not> is_extended_address x"
    using assms(4) by simp_all
  have run: "read_lines s e (l4 # mid @ [ld]) st = fst (process_line s e ld st5)"
    using pl4 read_lines_snoc [OF no_term, of s e ld st4] by (simp add: st5_def)
  have base5: "extendedLinearAddress st5 = base"
    using read_lines_base [OF no_ext, of s e st4] by (simp add: st5_def st4_def)
  have written: "map_of (memoryMap (read_lines s e (l4 # mid @ [ld]) st))
      (base + ucast off + of_nat k) = Some v"
    if "k < unat bc" and "in_window s e (base + ucast off + of_nat k)"
      and "\<forall>j<k. in_window s e (base + ucast off + of_nat j) \<longrightarrow> \<not> isl (payload_byte ld j)"
      and "payload_byte ld k = Inr v" for k v
    using data_record_writes [OF assms(5,6) that(1), where s = s and e = e and st = st5 and v = v]
      that(2,3,4)
    unfolding base5 run by simp
  have "extendedLinearAddress (fst (process_line s e l4 st)) = base"
    using pl4 by (simp add: st4_def)
  with written hi lo have "\<exists>hi lo.
           payload_byte l4 0 = Inr hi \<and> payload_byte l4 1 = Inr lo \<and>
           (let base = push_bit 16 (ucast hi * 256 + ucast lo) in
              extendedLinearAddress (fst (process_line s e l4 st)) = base
              \<and> (\<forall>k v. k < unat bc
                         \<and> in_window s e (base + ucast off + of_nat k)
                         \<and> (\<forall>j<k. in_window s e (base + ucast off + of_nat j)
                                     \<longrightarrow> \<not> isl (payload_byte ld j))
                         \<and> payload_byte ld k = Inr v
                    \<longrightarrow> map_of (memoryMap (read_lines s e (l4 # mid @ [ld]) st))
                          (base + ucast off + of_nat k) = Some v))"
    unfolding Let_def base_def by blast
  then show ?thesis using address_example by simp
qed

lemma ea_candidate: "candidate '':020000040800F2''"
  by code_simp

lemma ea_header: "parse_header '':020000040800F2'' = Inr (0x02, 0x0000, 0x04)"
  by code_simp

lemma ea_digits: "hex_digits_at '':020000040800F2'' 9 4"
  by code_simp

lemma ea_bytes:
  "payload_byte '':020000040800F2'' 0 = Inr 0x08" "payload_byte '':020000040800F2'' 1 = Inr 0x00"
  by code_simp+

lemma ea_mid:
  "\<forall>x\<in>set ['':0100000011EE'', ''; comment'']. \<not> is_terminator x \<and> \<not> is_extended_address x"
  by code_simp

lemma ea_data_candidate: "candidate '':01001000AA45''"
  by code_simp

lemma ea_data_header: "parse_header '':01001000AA45'' = Inr (0x01, 0x0010, 0x00)"
  by code_simp

lemma ea_data_byte: "payload_byte '':01001000AA45'' 0 = Inr 0xAA"
  by code_simp

theorem extended_address_sets_base_witness:
  "extendedLinearAddress (fst (process_line 0x08000000 0x08000100 '':020000040800F2''
      (initial_state\<lparr>extendedLinearAddress := 0x12340000\<rparr>))) = 0x08000000
   \<and> map_of (memoryMap (read_lines 0x08000000 0x08000100
        ('':020000040800F2'' # ['':0100000011EE'', ''; comment''] @ ['':01001000AA45''])
        (initial_state\<lparr>extendedLinearAddress := 0x12340000\<rparr>))) 0x08000010 = Some 0xAA"
proof -
  let ?st = "initial_state\<lparr>extendedLinearAddress := 0x12340000\<rparr>"
  let ?run = "read_lines 0x08000000 0x08000100
        ('':020000040800F2'' # ['':0100000011EE'', ''; comment''] @ ['':01001000AA45'']) ?st"
  from extended_address_sets_base
    [OF ea_candidate ea_header ea_digits ea_mid ea_data_candidate ea_data_header,
     of "0x08000000" "0x08000100" ?st]
  have base: "extendedLinearAddress (fst (process_line 0x08000000 0x08000100 '':020000040800F2'' ?st))
      = push_bit 16 (ucast (0x08 :: 8 word) * 256 + ucast (0x00 :: 8 word))"
    and written: "\<forall>k v. k < unat (0x01 :: 8 word)
         \<and> in_window 0x08000000 0x08000100
              (push_bit 16 (ucast (0x08 :: 8 word) * 256 + ucast (0x00 :: 8 word))
                 + ucast (0x0010 :: 16 word) + of_nat k)
         \<and> (\<forall>j<k. in_window 0x08000000 0x08000100
                (push_bit 16 (ucast (0x08 :: 8 word) * 256 + ucast (0x00 :: 8 word))
                   + ucast (0x0010 :: 16 word) + of_nat j)
              \<longrightarrow> \<not> isl (payload_byte '':01001000AA45'' j))
         \<and> payload_byte '':01001000AA45'' k = Inr v
         \<longrightarrow> map_of (memoryMap ?run)
               (push_bit 16 (ucast (0x08 :: 8 word) * 256 + ucast (0x00 :: 8 word))
                  + ucast (0x0010 :: 16 word) + of_nat k) = Some v"
    unfolding ea_bytes Let_def by auto
  have b: "(push_bit 16 (ucast (0x08 :: 8 word) * 256 + ucast (0x00 :: 8 word)) :: 32 word)
      = 0x08000000"
    by simp
  from written [rule_format, of 0 "0xAA"] ea_data_byte
  have "map_of (memoryMap ?run) 0x08000010 = Some 0xAA"
    unfolding b by simp
  with base b show ?thesis by simp
qed

section \<open>When a field cannot be read, and that every run is defined\<close>

lemma strip_sign_length: "length (snd (strip_sign s)) \<le> length s"
  by (simp add: strip_sign_def split: list.splits)

lemma strip_0x_length: "length (strip_0x s) \<le> length s"
  by (simp add: strip_0x_def split: list.splits)

lemma strtol16_bound:
  assumes "strtol16 s = Some v"
  shows "\<bar>v\<bar> < 16 ^ length s"
proof -
  obtain negative s1 where ss: "strip_sign (dropWhile isspace s) = (negative, s1)"
    by (cases "strip_sign (dropWhile isspace s)")
  let ?digits = "strip_0x s1"
  have "length s1 \<le> length (dropWhile isspace s)"
    using strip_sign_length [of "dropWhile isspace s"] ss by simp
  also have "\<dots> \<le> length s" by (rule length_dropWhile_le)
  finally have len: "length ?digits \<le> length s"
    using strip_0x_length [of s1] by simp
  from accumulate_digits_bounds [of 0 ?digits]
  have lo: "0 \<le> accumulate_digits 0 ?digits"
    and hi: "accumulate_digits 0 ?digits < 16 ^ length ?digits"
    by simp_all
  have "(16 :: int) ^ length ?digits \<le> 16 ^ length s"
    using len by (intro power_increasing) simp_all
  with hi have hi': "accumulate_digits 0 ?digits < 16 ^ length s" by (rule less_le_trans)
  from assms ss have "v = accumulate_digits 0 ?digits \<or> v = - accumulate_digits 0 ?digits"
    by (auto simp: strtol16_def Let_def split: list.splits if_splits)
  with lo hi' show ?thesis by auto
qed

lemma hex_field_fails_iff:
  assumes "n \<le> 7"
  shows "isl (hex_field l pos n) \<longleftrightarrow> length l < pos \<or> strtol16 (take n (drop pos l)) = None"
proof (cases "strtol16 (take n (drop pos l))")
  case None
  then show ?thesis by (simp add: hex_field_def substr_def stoi16_def)
next
  case (Some v)
  have "length (take n (drop pos l)) \<le> 7" using assms by simp
  then have "(16 :: int) ^ length (take n (drop pos l)) \<le> 16 ^ 7"
    by (intro power_increasing) simp_all
  with strtol16_bound [OF Some] have "\<bar>v\<bar> < 16 ^ 7" by (rule less_le_trans)
  then have "\<bar>v\<bar> < 2 ^ 31" by simp
  then have "\<not> (v < - (2 ^ 31) \<or> 2 ^ 31 - 1 < v)" by auto
  with Some show ?thesis by (simp add: hex_field_def substr_def stoi16_def)
qed

lemma hex_tool_defined: "\<exists>r. hex_tool hexFile binFileOpens startAddress bankSize = Some r"
proof (cases hexFile)
  case None
  then show ?thesis by (simp add: hex_tool_def)
next
  case (Some ls)
  obtain buf f where
    "construct_binary startAddress bankSize
       (memoryMap (read_lines startAddress (startAddress + bankSize) ls initial_state))
     = Some (buf, f)"
    using construct_binary_defined by blast
  from hex_tool_cases [OF this, of binFileOpens] Some show ?thesis by simp
qed

section \<open>Data in the requested window decides the run\<close>

lemma uint_bounds_32: "0 \<le> uint (w :: 32 word)" "uint (w :: 32 word) < 2 ^ 32"
  using unsigned_less [of w, where ?'a = int] by simp_all

lemma in_window_no_wrap:
  assumes "in_window s (s + n) a"
  shows "uint s + uint n < 2 ^ 32"
proof (rule ccontr)
  assume "\<not> uint s + uint n < 2 ^ 32"
  then have ge: "2 ^ 32 \<le> uint s + uint n" by simp
  have "uint (s + n) = (uint s + uint n) mod 2 ^ 32" by (simp add: uint_word_ariths)
  also have "\<dots> = (uint s + uint n - 2 ^ 32) mod 2 ^ 32" by (simp add: mod_diff_right_eq)
  also have "\<dots> = uint s + uint n - 2 ^ 32"
    using ge uint_bounds_32 [of s] uint_bounds_32 [of n] by (intro mod_pos_pos_trivial) simp_all
  finally have "uint (s + n) < uint s" using uint_bounds_32 [of n] by simp
  moreover have "uint s \<le> uint a" "uint a < uint (s + n)"
    using assms by (simp_all add: word_le_def word_less_def)
  ultimately show False by simp
qed

lemma uint_end_no_wrap:
  assumes "uint s + uint n < 2 ^ 32"
  shows "uint (s + n) = uint s + uint (n :: 32 word)"
proof -
  have "uint (s + n) = (uint s + uint n) mod 2 ^ 32" by (simp add: uint_word_ariths)
  also have "\<dots> = uint s + uint n"
    using assms uint_bounds_32 [of s] uint_bounds_32 [of n] by (intro mod_pos_pos_trivial) simp_all
  finally show ?thesis .
qed

lemma requested_iff_in_window:
  assumes "uint s + uint n < 2 ^ 32"
  shows "in_requested_window s n a \<longleftrightarrow> in_window s (s + n) a"
  by (simp add: in_requested_window_def word_le_def word_less_def uint_end_no_wrap [OF assms])

lemma stores_in_window_iff:
  assumes "uint s + uint n < 2 ^ 32"
  shows "stores_in_window s n l base \<longleftrightarrow>
     candidate l \<and>
     (\<exists>bc off k. parse_header l = Inr (bc, off, 0x00) \<and> k < unat bc
        \<and> in_window s (s + n) (base + ucast off + of_nat k)
        \<and> \<not> isl (payload_byte l k)
        \<and> (\<forall>j<k. in_window s (s + n) (base + ucast off + of_nat j)
                    \<longrightarrow> \<not> isl (payload_byte l j)))"
proof (cases "parse_header l")
  case (Inl ex)
  then show ?thesis by (simp add: stores_in_window_def)
next
  case (Inr h)
  obtain bc off rt where h: "h = (bc, off, rt)" by (cases h)
  show ?thesis
    unfolding stores_in_window_def Inr h
    by (auto simp: list_ex_iff list_all_iff requested_iff_in_window [OF assms])
qed

lemma data_loop_origin:
  "map_of (snd (data_loop s e l cur bc i m)) a \<noteq> None \<Longrightarrow>
   map_of m a \<noteq> None \<or>
   (\<exists>k. i \<le> k \<and> k < bc \<and> a = cur + of_nat k \<and> in_window s e a
        \<and> \<not> isl (payload_byte l k)
        \<and> (\<forall>j. i \<le> j \<and> j < k \<and> in_window s e (cur + of_nat j) \<longrightarrow> \<not> isl (payload_byte l j)))"
proof (induction s e l cur bc i m rule: data_loop.induct)
  case (1 s e l cur bc i m)
  note res = "1.prems"
  show ?case
  proof (cases "i < bc")
    case False
    then have "data_loop s e l cur bc i m = (None, m)" by (subst data_loop.simps) simp
    with res show ?thesis by simp
  next
    case lt: True
    show ?thesis
    proof (cases "in_window s e (cur + of_nat i)")
      case False
      then have eq: "data_loop s e l cur bc i m = data_loop s e l cur bc (i + 1) m"
        by (subst data_loop.simps) (auto simp: lt)
      from "1.IH"(2) [OF lt refl _ res [unfolded eq]] False
      consider "map_of m a \<noteq> None"
        | k where "i + 1 \<le> k" "k < bc" "a = cur + of_nat k" "in_window s e a"
            "\<not> isl (payload_byte l k)"
            "\<forall>j. i + 1 \<le> j \<and> j < k \<and> in_window s e (cur + of_nat j) \<longrightarrow> \<not> isl (payload_byte l j)"
        by auto
      then show ?thesis
      proof cases
        case 1
        then show ?thesis by simp
      next
        case (2 k)
        have "\<forall>j. i \<le> j \<and> j < k \<and> in_window s e (cur + of_nat j) \<longrightarrow> \<not> isl (payload_byte l j)"
        proof (intro allI impI)
          fix j assume j: "i \<le> j \<and> j < k \<and> in_window s e (cur + of_nat j)"
          then have "j \<noteq> i" using False by auto
          with j have "i + 1 \<le> j" by simp
          with j 2(6) show "\<not> isl (payload_byte l j)" by simp
        qed
        with 2 have "i \<le> k \<and> k < bc \<and> a = cur + of_nat k \<and> in_window s e a
            \<and> \<not> isl (payload_byte l k)
            \<and> (\<forall>j. i \<le> j \<and> j < k \<and> in_window s e (cur + of_nat j) \<longrightarrow> \<not> isl (payload_byte l j))"
          by simp
        then show ?thesis by blast
      qed
    next
      case win: True
      show ?thesis
      proof (cases "payload_byte l i")
        case (Inl ex)
        then have "data_loop s e l cur bc i m = (Some ex, m)"
          by (subst data_loop.simps) (simp add: lt win)
        with res show ?thesis by simp
      next
        case (Inr v)
        then have eq: "data_loop s e l cur bc i m =
            data_loop s e l cur bc (i + 1) (map_assign (cur + of_nat i) v m)"
          by (subst data_loop.simps) (simp add: lt win)
        from "1.IH"(1) [OF lt refl _ Inr res [unfolded eq]] win
        consider "map_of (map_assign (cur + of_nat i) v m) a \<noteq> None"
          | k where "i + 1 \<le> k" "k < bc" "a = cur + of_nat k" "in_window s e a"
              "\<not> isl (payload_byte l k)"
              "\<forall>j. i + 1 \<le> j \<and> j < k \<and> in_window s e (cur + of_nat j) \<longrightarrow> \<not> isl (payload_byte l j)"
          by auto
        then show ?thesis
        proof cases
          case 1
          show ?thesis
          proof (cases "a = cur + of_nat i")
            case True
            with lt win Inr have "i \<le> i \<and> i < bc \<and> a = cur + of_nat i \<and> in_window s e a
                \<and> \<not> isl (payload_byte l i)
                \<and> (\<forall>j. i \<le> j \<and> j < i \<and> in_window s e (cur + of_nat j)
                       \<longrightarrow> \<not> isl (payload_byte l j))"
              by auto
            then show ?thesis by blast
          next
            case False
            with 1 show ?thesis by (simp add: map_of_map_assign)
          qed
        next
          case (2 k)
          have "\<forall>j. i \<le> j \<and> j < k \<and> in_window s e (cur + of_nat j) \<longrightarrow> \<not> isl (payload_byte l j)"
          proof (intro allI impI)
            fix j assume j: "i \<le> j \<and> j < k \<and> in_window s e (cur + of_nat j)"
            show "\<not> isl (payload_byte l j)"
            proof (cases "j = i")
              case True
              with Inr show ?thesis by simp
            next
              case False
              with j have "i + 1 \<le> j" by simp
              with j 2(6) show ?thesis by simp
            qed
          qed
          with 2 have "i \<le> k \<and> k < bc \<and> a = cur + of_nat k \<and> in_window s e a
              \<and> \<not> isl (payload_byte l k)
              \<and> (\<forall>j. i \<le> j \<and> j < k \<and> in_window s e (cur + of_nat j)
                     \<longrightarrow> \<not> isl (payload_byte l j))"
            by simp
          then show ?thesis by blast
        qed
      qed
    qed
  qed
qed

lemma data_loop_keeps_entries:
  "map_of m a \<noteq> None \<Longrightarrow> map_of (snd (data_loop s e l cur bc i m)) a \<noteq> None"
proof (induction s e l cur bc i m rule: data_loop.induct)
  case (1 s e l cur bc i m)
  note has = "1.prems"
  show ?case
  proof (cases "i < bc")
    case False
    then have "data_loop s e l cur bc i m = (None, m)" by (subst data_loop.simps) simp
    with has show ?thesis by simp
  next
    case lt: True
    show ?thesis
    proof (cases "in_window s e (cur + of_nat i)")
      case False
      then have eq: "data_loop s e l cur bc i m = data_loop s e l cur bc (i + 1) m"
        by (subst data_loop.simps) (auto simp: lt)
      from "1.IH"(2) [OF lt refl _ has] False show ?thesis unfolding eq by auto
    next
      case win: True
      show ?thesis
      proof (cases "payload_byte l i")
        case (Inl ex)
        then have "data_loop s e l cur bc i m = (Some ex, m)"
          by (subst data_loop.simps) (simp add: lt win)
        with has show ?thesis by simp
      next
        case (Inr v)
        then have eq: "data_loop s e l cur bc i m =
            data_loop s e l cur bc (i + 1) (map_assign (cur + of_nat i) v m)"
          by (subst data_loop.simps) (simp add: lt win)
        have "map_of (map_assign (cur + of_nat i) v m) a \<noteq> None"
          using has by (simp add: map_of_map_assign)
        from "1.IH"(1) [OF lt refl _ Inr this] win show ?thesis unfolding eq by simp
      qed
    qed
  qed
qed


lemma process_line_keeps_entries:
  assumes "map_of (memoryMap st) a \<noteq> None"
  shows "map_of (memoryMap (fst (process_line s e l st))) a \<noteq> None"
proof (cases l rule: process_line_cases)
  case skip
  from process_line_skip [OF this, of s e st] assms show ?thesis by simp
next
  case (header_fails ex)
  from process_line_header_fails [OF this, of s e st] assms show ?thesis by simp
next
  case (terminator bc off)
  from process_line_terminator [OF this, of s e st] assms show ?thesis by simp
next
  case (extended bc off)
  from process_line_extended [OF this, of s e st] assms show ?thesis
    by (cases "hex_field l 9 4") simp_all
next
  case (data bc off)
  let ?cur = "extendedLinearAddress st + ucast off"
  obtain thrown m where dl: "data_loop s e l ?cur (unat bc) 0 (memoryMap st) = (thrown, m)"
    by (cases "data_loop s e l ?cur (unat bc) 0 (memoryMap st)")
  from data_loop_keeps_entries [OF assms, of s e l ?cur "unat bc" 0] dl
  have "map_of m a \<noteq> None" by simp
  with process_line_data [OF data, of s e st] dl show ?thesis
    by (cases thrown) simp_all
next
  case (other bc off rt)
  from process_line_other [OF this, of s e st] assms show ?thesis by simp
qed

lemma read_lines_keeps_entries:
  "map_of (memoryMap st) a \<noteq> None \<Longrightarrow> map_of (memoryMap (read_lines s e ls st)) a \<noteq> None"
proof (induction ls arbitrary: st)
  case Nil
  then show ?case by simp
next
  case (Cons x xs)
  obtain st' stop where pl: "process_line s e x st = (st', stop)"
    by (cases "process_line s e x st")
  have here: "map_of (memoryMap st') a \<noteq> None"
    using process_line_keeps_entries [OF Cons.prems, of s e x] pl by simp
  show ?case using pl here Cons.IH [OF here] by (cases stop) simp_all
qed

lemma process_line_origin:
  assumes "map_of (memoryMap (fst (process_line s (s + n) l st))) a \<noteq> None"
    and "map_of (memoryMap st) a = None"
  shows "stores_in_window s n l (extendedLinearAddress st)"
proof (cases l rule: process_line_cases)
  case skip
  from process_line_skip [OF this, of s "s + n" st] assms show ?thesis by simp
next
  case (header_fails ex)
  from process_line_header_fails [OF this, of s "s + n" st] assms show ?thesis by simp
next
  case (terminator bc off)
  from process_line_terminator [OF this, of s "s + n" st] assms show ?thesis by simp
next
  case (extended bc off)
  from process_line_extended [OF this, of s "s + n" st] assms show ?thesis
    by (cases "hex_field l 9 4") simp_all
next
  case (data bc off)
  let ?cur = "extendedLinearAddress st + ucast off"
  obtain thrown m where dl: "data_loop s (s + n) l ?cur (unat bc) 0 (memoryMap st) = (thrown, m)"
    by (cases "data_loop s (s + n) l ?cur (unat bc) 0 (memoryMap st)")
  have "map_of m a \<noteq> None"
    using process_line_data [OF data, of s "s + n" st] dl assms(1) by (cases thrown) simp_all
  with data_loop_origin [of s "s + n" l ?cur "unat bc" 0 "memoryMap st" a] dl assms(2)
  obtain k where k: "k < unat bc" "a = ?cur + of_nat k" "in_window s (s + n) a"
    "\<not> isl (payload_byte l k)"
    "\<forall>j. 0 \<le> j \<and> j < k \<and> in_window s (s + n) (?cur + of_nat j) \<longrightarrow> \<not> isl (payload_byte l j)"
    by auto
  have nw: "uint s + uint n < 2 ^ 32" using k(3) by (rule in_window_no_wrap)
  have "\<exists>bc off k. parse_header l = Inr (bc, off, 0x00) \<and> k < unat bc
        \<and> in_window s (s + n) (extendedLinearAddress st + ucast off + of_nat k)
        \<and> \<not> isl (payload_byte l k)
        \<and> (\<forall>j<k. in_window s (s + n) (extendedLinearAddress st + ucast off + of_nat j)
                    \<longrightarrow> \<not> isl (payload_byte l j))"
    using data(2) k by (intro exI [of _ bc] exI [of _ off] exI [of _ k]) simp
  with data(1) show ?thesis by (simp add: stores_in_window_iff [OF nw])
next
  case (other bc off rt)
  from process_line_other [OF this, of s "s + n" st] assms show ?thesis by simp
qed

lemma read_lines_origin:
  "map_of (memoryMap (read_lines s (s + n) ls st)) a \<noteq> None \<Longrightarrow>
   map_of (memoryMap st) a = None \<Longrightarrow>
   \<exists>pre l post. ls = pre @ l # post \<and> (\<forall>x\<in>set pre. \<not> is_terminator x)
      \<and> stores_in_window s n l (extendedLinearAddress (read_lines s (s + n) pre st))"
proof (induction ls arbitrary: st)
  case Nil
  then show ?case by simp
next
  case (Cons x xs)
  obtain st' stop where pl: "process_line s (s + n) x st = (st', stop)"
    by (cases "process_line s (s + n) x st")
  show ?case
  proof (cases stop)
    case True
    then have "is_terminator x" using process_line_stops_iff [of s "s + n" x st] pl by simp
    from process_line_terminator_state [OF this, of s "s + n" st] Cons.prems
    show ?thesis by simp
  next
    case False
    then have nt: "\<not> is_terminator x" using process_line_stops_iff [of s "s + n" x st] pl by simp
    have run: "read_lines s (s + n) (x # xs) st = read_lines s (s + n) xs st'"
      using pl False by simp
    show ?thesis
    proof (cases "map_of (memoryMap st') a = None")
      case True
      from Cons.IH [OF Cons.prems(1) [unfolded run] True]
      obtain pre l post where d: "xs = pre @ l # post" "\<forall>x\<in>set pre. \<not> is_terminator x"
        "stores_in_window s n l (extendedLinearAddress (read_lines s (s + n) pre st'))"
        by blast
      have "x # xs = (x # pre) @ l # post" using d(1) by simp
      moreover have "\<forall>y\<in>set (x # pre). \<not> is_terminator y" using d(2) nt by simp
      moreover have "read_lines s (s + n) (x # pre) st = read_lines s (s + n) pre st'"
        using pl False by simp
      ultimately show ?thesis using d(3) by metis
    next
      case False
      then have "map_of (memoryMap (fst (process_line s (s + n) x st))) a \<noteq> None"
        using pl by simp
      from process_line_origin [OF this Cons.prems(2)]
      have "stores_in_window s n x (extendedLinearAddress (read_lines s (s + n) [] st))" by simp
      moreover have "x # xs = [] @ x # xs" by simp
      moreover have "\<forall>y\<in>set []. \<not> is_terminator y" by simp
      ultimately show ?thesis by blast
    qed
  qed
qed

lemma stores_gives_entry:
  assumes "uint s + uint n < 2 ^ 32"
    and "\<forall>x\<in>set pre. \<not> is_terminator x"
    and "stores_in_window s n l (extendedLinearAddress (read_lines s (s + n) pre st))"
  shows "\<exists>a. in_window s (s + n) a
           \<and> map_of (memoryMap (read_lines s (s + n) (pre @ l # post) st)) a \<noteq> None"
proof -
  let ?st1 = "read_lines s (s + n) pre st"
  let ?st2 = "fst (process_line s (s + n) l ?st1)"
  from assms(3) [unfolded stores_in_window_iff [OF assms(1)]]
  obtain bc off k where c: "candidate l" and h: "parse_header l = Inr (bc, off, 0x00)"
    and k: "k < unat bc"
    and w: "in_window s (s + n) (extendedLinearAddress ?st1 + ucast off + of_nat k)"
    and r: "\<not> isl (payload_byte l k)"
    and b: "\<forall>j<k. in_window s (s + n) (extendedLinearAddress ?st1 + ucast off + of_nat j)
                    \<longrightarrow> \<not> isl (payload_byte l j)"
    by blast
  from r obtain v where v: "payload_byte l k = Inr v" by (cases "payload_byte l k") auto
  let ?a = "extendedLinearAddress ?st1 + ucast off + of_nat k"
  have "map_of (memoryMap ?st2) ?a = Some v"
    by (rule data_record_writes [OF c h k w b v])
  then have "map_of (memoryMap (read_lines s (s + n) post ?st2)) ?a \<noteq> None"
    by (intro read_lines_keeps_entries) simp
  moreover have "read_lines s (s + n) (pre @ l # post) st = read_lines s (s + n) post ?st2"
    by (rule read_lines_then [OF assms(2) data_line_not_terminator [OF h]])
  ultimately show ?thesis using w by auto
qed

lemma initial_map_empty: "map_of (memoryMap initial_state) a = None"
  by (simp add: initial_state_def)

text \<open>
  C7, as the code has it. With the input file readable: when no Data record that is
  processed before a terminator holds a byte for the requested window, the run returns
  status 1 with the no-data error and writes no output file. When one does, the end
  \<open>startAddress + bankSize\<close> is below \<open>2^32\<close> and the output file can be created, the run
  succeeds, writes the buffer (which may hold \<open>0xFF\<close> padding elsewhere) and prints its
  hash.
\<close>

theorem data_in_window_decides_the_run:
  "let st = read_lines startAddress (startAddress + bankSize) lines initial_state;
       has_data =
         (\<exists>pre l post.
            lines = pre @ l # post \<and> (\<forall>x\<in>set pre. \<not> is_terminator x)
            \<and> stores_in_window startAddress bankSize l
                 (extendedLinearAddress
                    (read_lines startAddress (startAddress + bankSize) pre initial_state)))
   in (\<not> has_data \<longrightarrow>
         hex_tool (Some lines) binFileOpens startAddress bankSize =
           Some \<lparr>exit_status = 1, fatal = Some No_Data_Found, line_warnings = warnings st,
                 parsed_message = True, bin_file = None, generated_hash = None\<rparr>)
    \<and> (has_data \<and> uint startAddress + uint bankSize < 2 ^ 32 \<and> binFileOpens \<longrightarrow>
         (\<exists>binaryData.
            construct_binary startAddress bankSize (memoryMap st) = Some (binaryData, True)
            \<and> hex_tool (Some lines) binFileOpens startAddress bankSize =
                Some \<lparr>exit_status = 0, fatal = None, line_warnings = warnings st,
                      parsed_message = True, bin_file = Some binaryData,
                      generated_hash = Some (crc32 binaryData)\<rparr>))"
proof -
  define st where "st = read_lines startAddress (startAddress + bankSize) lines initial_state"
  define has_data where "has_data \<longleftrightarrow>
         (\<exists>pre l post.
            lines = pre @ l # post \<and> (\<forall>x\<in>set pre. \<not> is_terminator x)
            \<and> stores_in_window startAddress bankSize l
                 (extendedLinearAddress
                    (read_lines startAddress (startAddress + bankSize) pre initial_state)))"
  obtain buf f where cb: "construct_binary startAddress bankSize (memoryMap st) = Some (buf, f)"
    using construct_binary_defined by blast
  note run = hex_tool_cases [OF cb [unfolded st_def], of binFileOpens, folded st_def]
  note f = found_iff_entry [OF cb]
  have none: "\<not> f" if "\<not> has_data"
  proof
    assume f
    with f obtain a where "map_of (memoryMap st) a \<noteq> None" by blast
    from read_lines_origin [OF this [unfolded st_def] initial_map_empty] that
    show False unfolding has_data_def by blast
  qed
  have some: f if "has_data" and "uint startAddress + uint bankSize < 2 ^ 32"
  proof -
    from that(1) obtain pre l post where d: "lines = pre @ l # post"
      "\<forall>x\<in>set pre. \<not> is_terminator x"
      "stores_in_window startAddress bankSize l
         (extendedLinearAddress
            (read_lines startAddress (startAddress + bankSize) pre initial_state))"
      unfolding has_data_def by blast
    from stores_gives_entry [OF that(2) d(2,3), of post] show ?thesis
      unfolding f st_def d(1) by blast
  qed
  have first: "\<not> has_data \<longrightarrow>
         hex_tool (Some lines) binFileOpens startAddress bankSize =
           Some \<lparr>exit_status = 1, fatal = Some No_Data_Found, line_warnings = warnings st,
                 parsed_message = True, bin_file = None, generated_hash = None\<rparr>"
    using none run by simp
  have second: "has_data \<and> uint startAddress + uint bankSize < 2 ^ 32 \<and> binFileOpens \<longrightarrow>
         (\<exists>binaryData.
            construct_binary startAddress bankSize (memoryMap st) = Some (binaryData, True)
            \<and> hex_tool (Some lines) binFileOpens startAddress bankSize =
                Some \<lparr>exit_status = 0, fatal = None, line_warnings = warnings st,
                      parsed_message = True, bin_file = Some binaryData,
                      generated_hash = Some (crc32 binaryData)\<rparr>)"
    using some run cb by auto
  show ?thesis
    unfolding Let_def st_def [symmetric] has_data_def [symmetric]
    using first second by simp
qed


lemma top_window_sum: "uint (0xFFFFFF00 :: 32 word) + uint (0x100 :: 32 word) = 2 ^ 32"
  by simp

lemma top_window_first_line: "\<not> is_terminator '':02000004FFFFFC''"
  by code_simp

lemma top_window_base:
  "extendedLinearAddress (read_lines 0xFFFFFF00 (0xFFFFFF00 + 0x100) ['':02000004FFFFFC'']
     initial_state) = 0xFFFF0000"
  by code_simp

lemma top_window_record: "stores_in_window 0xFFFFFF00 0x100 '':01FF1000AA46'' 0xFFFF0000"
  by code_simp

lemma top_window_run:
  "hex_tool (Some ['':02000004FFFFFC'', '':01FF1000AA46'']) True 0xFFFFFF00 0x100 =
     Some \<lparr>exit_status = 1, fatal = Some No_Data_Found, line_warnings = [],
           parsed_message = True, bin_file = None, generated_hash = None\<rparr>"
  by code_simp

text \<open>
  C7, as stated, fails. The window of \<open>0x100\<close> bytes from \<open>0xFFFFFF00\<close> ends exactly at
  \<open>2^32\<close>. The input sets the base \<open>0xFFFF0000\<close> and holds one Data byte at
  \<open>0xFFFFFF10\<close>, inside the requested window; the 32-bit end address is 0, the byte is
  dropped, and the run ends with status 1 and the no-data error.
\<close>

theorem window_ending_at_top_reports_no_data:
  "uint (0xFFFFFF00 :: 32 word) + uint (0x100 :: 32 word) = 2 ^ 32
   \<and> \<not> is_terminator '':02000004FFFFFC''
   \<and> extendedLinearAddress (read_lines 0xFFFFFF00 (0xFFFFFF00 + 0x100) ['':02000004FFFFFC'']
        initial_state) = 0xFFFF0000
   \<and> stores_in_window 0xFFFFFF00 0x100 '':01FF1000AA46'' 0xFFFF0000
   \<and> hex_tool (Some ['':02000004FFFFFC'', '':01FF1000AA46'']) True 0xFFFFFF00 0x100 =
       Some \<lparr>exit_status = 1, fatal = Some No_Data_Found, line_warnings = [],
             parsed_message = True, bin_file = None, generated_hash = None\<rparr>"
  using top_window_sum top_window_first_line top_window_base top_window_record top_window_run
  by simp

lemma no_data_example_first:
  "\<not> stores_in_window 0x08000000 0x10 '':020000040800F2''
       (extendedLinearAddress (read_lines 0x08000000 (0x08000000 + 0x10) [] initial_state))"
  by code_simp

lemma no_data_example_second:
  "\<not> stores_in_window 0x08000000 0x10 '':04002000DEADBEEFA4''
       (extendedLinearAddress (read_lines 0x08000000 (0x08000000 + 0x10) ['':020000040800F2'']
          initial_state))"
  by code_simp

lemma no_data_example_warnings:
  "warnings (read_lines 0x08000000 (0x08000000 + 0x10)
       ['':020000040800F2'', '':04002000DEADBEEFA4''] initial_state) = []"
  by code_simp

lemma padded_example_first: "\<forall>x\<in>set ['':020000040800F2'']. \<not> is_terminator x"
  by code_simp

lemma padded_example_record:
  "stores_in_window 0x08000000 0x4 '':01000200AA53''
     (extendedLinearAddress (read_lines 0x08000000 (0x08000000 + 0x4) ['':020000040800F2'']
        initial_state))"
  by code_simp

lemma padded_example:
  "memoryMap (read_lines 0x08000000 (0x08000000 + 0x4)
       ['':020000040800F2'', '':01000200AA53''] initial_state) = [(0x08000002, 0xAA)]"
  by code_simp

lemma padded_example_buffer:
  "construct_binary 0x08000000 0x4 [(0x08000002, 0xAA)] = Some ([0xFF, 0xFF, 0xAA, 0xFF], True)"
  by code_simp

theorem data_in_window_decides_the_run_witness:
  "hex_tool (Some ['':020000040800F2'', '':04002000DEADBEEFA4'']) True 0x08000000 0x10 =
     Some \<lparr>exit_status = 1, fatal = Some No_Data_Found, line_warnings = [],
           parsed_message = True, bin_file = None, generated_hash = None\<rparr>
   \<and> bin_file (the (hex_tool (Some ['':020000040800F2'', '':01000200AA53'']) True 0x08000000 0x4))
       = Some [0xFF, 0xFF, 0xAA, 0xFF]
   \<and> exit_status (the (hex_tool (Some ['':020000040800F2'', '':01000200AA53'']) True 0x08000000 0x4))
       = 0"
proof -
  have none: "\<not> (\<exists>pre l post.
      ['':020000040800F2'', '':04002000DEADBEEFA4''] = pre @ l # post
      \<and> (\<forall>x\<in>set pre. \<not> is_terminator x)
      \<and> stores_in_window 0x08000000 0x10 l
           (extendedLinearAddress (read_lines 0x08000000 (0x08000000 + 0x10) pre initial_state)))"
  proof
    assume "\<exists>pre l post.
      ['':020000040800F2'', '':04002000DEADBEEFA4''] = pre @ l # post
      \<and> (\<forall>x\<in>set pre. \<not> is_terminator x)
      \<and> stores_in_window 0x08000000 0x10 l
           (extendedLinearAddress (read_lines 0x08000000 (0x08000000 + 0x10) pre initial_state))"
    then obtain pre l post where
      d: "['':020000040800F2'', '':04002000DEADBEEFA4''] = pre @ l # post"
      and st: "stores_in_window 0x08000000 0x10 l
           (extendedLinearAddress (read_lines 0x08000000 (0x08000000 + 0x10) pre initial_state))"
      by blast
    from d consider "pre = []" "l = '':020000040800F2''"
      | "pre = ['':020000040800F2'']" "l = '':04002000DEADBEEFA4''"
      by (auto simp: Cons_eq_append_conv)
    then show False
    proof cases
      case 1
      with st no_data_example_first show False by simp
    next
      case 2
      with st no_data_example_second show False by simp
    qed
  qed
  have some: "\<exists>pre l post.
      ['':020000040800F2'', '':01000200AA53''] = pre @ l # post
      \<and> (\<forall>x\<in>set pre. \<not> is_terminator x)
      \<and> stores_in_window 0x08000000 0x4 l
           (extendedLinearAddress (read_lines 0x08000000 (0x08000000 + 0x4) pre initial_state))"
    using padded_example_first padded_example_record
    by (intro exI [of _ "['':020000040800F2'']"] exI [of _ "'':01000200AA53''"] exI [of _ "[]"])
       simp
  have nw: "uint (0x08000000 :: 32 word) + uint (0x4 :: 32 word) < 2 ^ 32" by simp
  from data_in_window_decides_the_run
      [where lines = "['':020000040800F2'', '':04002000DEADBEEFA4'']"
         and startAddress = "0x08000000" and bankSize = "0x10" and binFileOpens = True]
    none no_data_example_warnings
  have first: "hex_tool (Some ['':020000040800F2'', '':04002000DEADBEEFA4'']) True 0x08000000 0x10 =
     Some \<lparr>exit_status = 1, fatal = Some No_Data_Found, line_warnings = [],
           parsed_message = True, bin_file = None, generated_hash = None\<rparr>"
    unfolding Let_def by simp
  from data_in_window_decides_the_run
      [where lines = "['':020000040800F2'', '':01000200AA53'']"
         and startAddress = "0x08000000" and bankSize = "0x4" and binFileOpens = True]
    some nw
  obtain buf where
    "construct_binary 0x08000000 0x4 (memoryMap (read_lines 0x08000000 (0x08000000 + 0x4)
         ['':020000040800F2'', '':01000200AA53''] initial_state)) = Some (buf, True)"
    and run: "hex_tool (Some ['':020000040800F2'', '':01000200AA53'']) True 0x08000000 0x4 =
        Some \<lparr>exit_status = 0, fatal = None, line_warnings = warnings (read_lines 0x08000000 (0x08000000 + 0x4)
         ['':020000040800F2'', '':01000200AA53''] initial_state),
              parsed_message = True, bin_file = Some buf, generated_hash = Some (crc32 buf)\<rparr>"
    unfolding Let_def by blast
  then have "buf = [0xFF, 0xFF, 0xAA, 0xFF]"
    unfolding padded_example padded_example_buffer by simp
  with run first show ?thesis by simp
qed

end
